theory Spec2Isabelle
  imports Complex_Main "HOL-Library.Word"
begin

section \<open>Floating-point durations\<close>

text \<open>
  Durations, volumes and speed factors are Python floats: IEEE double-precision numbers.
  A finite double is a sign, a mantissa of 53 bits and an exponent; its value is the real
  number \<open>val\<close>. The exponent is not bounded here and there are no infinities and no
  NaN: durations in seconds are far from both ends of the range. Comparisons of floats are
  exact, so the model compares the values. The one arithmetic operation of the code is the
  division \<^verbatim>\<open>dubbed_duration / video_duration\<close>, whose result is the double nearest
  to the exact quotient, ties going to the even mantissa.
\<close>

datatype double = Double (negative: bool) (mantissa: "53 word") (exponent: int)

definition val :: "double \<Rightarrow> real" where
  "val d = (if negative d then - 1 else 1) *
     (real (unat (mantissa d)) * 2 powr real_of_int (exponent d))"

definition round_half_even :: "real \<Rightarrow> int" where
  "round_half_even y =
     (let n = \<lfloor>y\<rfloor>; r = y - of_int n in
      if r < 1 / 2 then n else if 1 / 2 < r then n + 1 else if even n then n else n + 1)"

text \<open>The exponent \<open>e\<close> with \<open>2 ^ e \<le> x < 2 ^ (e + 1)\<close>, for positive \<open>x\<close>.\<close>

definition binade :: "real \<Rightarrow> int" where
  "binade x = \<lfloor>log 2 x\<rfloor>"

text \<open>Rounding to 53 significant bits: the spacing of the doubles around \<open>x\<close> is
  \<open>2 ^ (binade x - 52)\<close>.\<close>

definition round_double :: "real \<Rightarrow> real" where
  "round_double x =
     (if x = 0 then 0
      else let ulp = 2 powr real_of_int (binade \<bar>x\<bar> - 52)
           in sgn x * (of_int (round_half_even (\<bar>x\<bar> / ulp)) * ulp))"

text \<open>The float division \<^verbatim>\<open>a / b\<close> for \<open>b\<close> other than 0 (Python raises
  \<^verbatim>\<open>ZeroDivisionError\<close> at 0; the caller below does).\<close>

definition float_div :: "real \<Rightarrow> real \<Rightarrow> real" where
  "float_div a b = round_double (a / b)"

section \<open>The audio side of \<^verbatim>\<open>dub.py\<close>\<close>

text \<open>
  The file system, the \<^verbatim>\<open>ffmpeg\<close> process, \<^verbatim>\<open>shutil\<close> and the moviepy
  decoders and encoder are outside the repository. The files are an explicit store; what the
  external programs do is a parameter (\<open>ext\<close>), so that every theorem holds for every
  behaviour of them. Python exceptions do not roll the world back, so each operation
  returns its result (\<open>Inl\<close> the exception raised) together with the world it leaves.
\<close>

type_synonym path = string
type_synonym bytes = "8 word list"

datatype error =
    ZeroDivisionError
  | FileNotFoundError path
  | SameFileError path
  | CalledProcessError int
  | OSError path

text \<open>The one command line the audio code builds:
  \<^verbatim>\<open>ffmpeg -y -i audio_path -filter:a atempo=speed_factor -vn output_path\<close>.\<close>

datatype command = FfmpegAtempo path real path

text \<open>moviepy clips are lazy descriptions of audio; they are modelled as terms. The number
  in a file clip is its duration, the value of the float the decoder reports.\<close>

datatype audio_clip =
    AudioFileClip path real
  | VideoAudio path real
  | Volumex audio_clip real
  | Subclip audio_clip real real
  | CompositeAudioClip "audio_clip list"

record video_clip =
  v_path :: path
  v_duration :: real
  v_audio :: "audio_clip option"

record final_video =
  fv_video :: path
  fv_duration :: real
  fv_audio :: audio_clip

text \<open>
  The world: the files, the log of \<^verbatim>\<open>subprocess.run\<close> calls and the log of
  \<^verbatim>\<open>write_videofile\<close> calls (output path and the video handed to the encoder).
\<close>

record world =
  files :: "path \<rightharpoonup> bytes"
  calls :: "command list"
  renders :: "(path \<times> final_video) list"

text \<open>
  The external collaborators. \<open>run_tool\<close> is the ffmpeg executable (\<open>None\<close> when it
  is not installed, else its exit status and the files it leaves). \<open>audio_duration\<close> and
  \<open>video_info\<close> are the decoders behind \<^verbatim>\<open>AudioFileClip\<close> and
  \<^verbatim>\<open>VideoFileClip\<close> (\<open>None\<close> on an unreadable file; the video's duration and
  whether it has an audio track). \<open>write_videofile\<close> is the encoder (\<open>None\<close> when
  the write fails). \<open>copy_refused\<close> is the exception with which the operating system
  makes \<^verbatim>\<open>shutil.copy(src, dst)\<close> fail although the source file exists, if it does:
  the two paths name the same file, the directory of the destination is missing, a
  permission is denied. \<open>is_dir\<close> is \<^verbatim>\<open>os.path.isdir\<close>.
\<close>

record ext =
  run_tool :: "command \<Rightarrow> (path \<rightharpoonup> bytes) \<Rightarrow> (int \<times> (path \<rightharpoonup> bytes)) option"
  audio_duration :: "bytes \<Rightarrow> double option"
  video_info :: "bytes \<Rightarrow> (double \<times> bool) option"
  write_videofile :: "final_video \<Rightarrow> bytes option"
  copy_refused :: "path \<Rightarrow> path \<Rightarrow> (path \<rightharpoonup> bytes) \<Rightarrow> error option"
  is_dir :: "path \<Rightarrow> bool"

definition ORIGINAL_AUDIO_VOLUME :: real where
  "ORIGINAL_AUDIO_VOLUME = 1 / 10"

definition MAX_SPEED_FACTOR :: real where
  "MAX_SPEED_FACTOR = 5 / 4"

definition TEMP_DIR :: path where
  "TEMP_DIR = ''temp''"

definition temp_adjusted :: path where
  "temp_adjusted = TEMP_DIR @ ''/adjusted_dub.mp3''"

text \<open>The duration moviepy gives a clip: a sub-clip lasts from its start to its end, a
  composite as long as its longest member.\<close>

fun clip_duration :: "audio_clip \<Rightarrow> real" where
  "clip_duration (AudioFileClip p d) = d"
| "clip_duration (VideoAudio p d) = d"
| "clip_duration (Volumex c v) = clip_duration c"
| "clip_duration (Subclip c t_start t_end) = t_end - t_start"
| "clip_duration (CompositeAudioClip cs) = fold max (map clip_duration cs) 0"

text \<open>\<^verbatim>\<open>subprocess.run(cmd, check=True, capture_output=True)\<close>: raises when the
  executable is missing or exits with a status other than 0.\<close>

definition subprocess_run :: "ext \<Rightarrow> command \<Rightarrow> world \<Rightarrow> (error + unit) \<times> world" where
  "subprocess_run x cmd w =
     (let w1 = w\<lparr>calls := calls w @ [cmd]\<rparr> in
      case run_tool x cmd (files w) of
        None \<Rightarrow> (Inl (FileNotFoundError ''ffmpeg''), w1)
      | Some (rc, fs) \<Rightarrow>
          if rc \<noteq> 0 then (Inl (CalledProcessError rc), w1\<lparr>files := fs\<rparr>)
          else (Inr (), w1\<lparr>files := fs\<rparr>))"

text \<open>\<^verbatim>\<open>os.path.basename\<close> and \<^verbatim>\<open>os.path.join\<close> (of a directory and a
  name without a slash), on POSIX paths.\<close>

definition basename :: "path \<Rightarrow> path" where
  "basename p = rev (takeWhile (\<lambda>c. c \<noteq> CHR ''/'') (rev p))"

definition path_join :: "path \<Rightarrow> path \<Rightarrow> path" where
  "path_join dir name =
     (if dir = [] \<or> last dir = CHR ''/'' then dir @ name else dir @ ''/'' @ name)"

text \<open>
  \<^verbatim>\<open>shutil.copy(src, dst)\<close>: a destination that is a directory stands for the file of
  the source's name inside it; the copy raises when the source does not exist or the
  operating system refuses it; otherwise the destination file holds the bytes of the source.
\<close>

definition shutil_copy :: "ext \<Rightarrow> path \<Rightarrow> path \<Rightarrow> world \<Rightarrow> (error + unit) \<times> world" where
  "shutil_copy x src dst w =
     (let target = (if is_dir x dst then path_join dst (basename src) else dst) in
      case files w src of
        None \<Rightarrow> (Inl (FileNotFoundError src), w)
      | Some b \<Rightarrow>
          (case copy_refused x src dst (files w) of
             Some e \<Rightarrow> (Inl e, w)
           | None \<Rightarrow> (Inr (), w\<lparr>files := (files w)(target \<mapsto> b)\<rparr>)))"

definition adjust_audio_speed ::
    "ext \<Rightarrow> path \<Rightarrow> real \<Rightarrow> path \<Rightarrow> world \<Rightarrow> (error + unit) \<times> world" where
  "adjust_audio_speed x audio_path speed_factor output_path w =
     (if speed_factor = 1 then shutil_copy x audio_path output_path w
      else subprocess_run x (FfmpegAtempo audio_path speed_factor output_path) w)"

text \<open>\<^verbatim>\<open>AudioFileClip(path)\<close> and \<^verbatim>\<open>VideoFileClip(path)\<close>.\<close>

definition load_audio :: "ext \<Rightarrow> path \<Rightarrow> world \<Rightarrow> error + audio_clip" where
  "load_audio x p w =
     (case files w p of
        None \<Rightarrow> Inl (OSError p)
      | Some b \<Rightarrow>
          (case audio_duration x b of
             None \<Rightarrow> Inl (OSError p)
           | Some d \<Rightarrow> Inr (AudioFileClip p (val d))))"

definition load_video :: "ext \<Rightarrow> path \<Rightarrow> world \<Rightarrow> error + video_clip" where
  "load_video x p w =
     (case files w p of
        None \<Rightarrow> Inl (OSError p)
      | Some b \<Rightarrow>
          (case video_info x b of
             None \<Rightarrow> Inl (OSError p)
           | Some (d, has_audio) \<Rightarrow>
               Inr \<lparr>v_path = p, v_duration = val d,
                    v_audio = (if has_audio then Some (VideoAudio p (val d)) else None)\<rparr>))"

text \<open>
  \<open>mix_audio\<close>, statement by statement. The optional argument \<open>video_duration\<close> is
  \<open>None\<close> when the caller leaves it out, and a float otherwise.
\<close>

definition mix_audio ::
    "ext \<Rightarrow> path \<Rightarrow> path \<Rightarrow> path \<Rightarrow> real \<Rightarrow> double option \<Rightarrow> world \<Rightarrow> (error + path) \<times> world" where
  "mix_audio x original_video_path dubbed_audio_path output_path original_volume video_duration w =
     (case load_video x original_video_path w of
        Inl e \<Rightarrow> (Inl e, w)
      | Inr video \<Rightarrow>
          let video_duration =
                (case video_duration of None \<Rightarrow> v_duration video | Some d \<Rightarrow> val d);
              original_audio =
                (case v_audio video of None \<Rightarrow> None | Some a \<Rightarrow> Some (Volumex a original_volume))
          in
          (case load_audio x dubbed_audio_path w of
             Inl e \<Rightarrow> (Inl e, w)
           | Inr dubbed_audio \<Rightarrow>
               let dubbed_duration = clip_duration dubbed_audio;
                   fitted =
                     (if dubbed_duration > video_duration then
                        if video_duration = 0 then (Inl ZeroDivisionError, w)
                        else
                          let speed_needed = float_div dubbed_duration video_duration in
                          if speed_needed \<le> MAX_SPEED_FACTOR then
                            (case adjust_audio_speed x dubbed_audio_path speed_needed temp_adjusted w of
                               (Inl e, w1) \<Rightarrow> (Inl e, w1)
                             | (Inr u, w1) \<Rightarrow>
                                 (case load_audio x temp_adjusted w1 of
                                    Inl e \<Rightarrow> (Inl e, w1)
                                  | Inr c \<Rightarrow> (Inr c, w1)))
                          else (Inr (Subclip dubbed_audio 0 video_duration), w)
                      else (Inr dubbed_audio, w))
               in
               (case fitted of
                  (Inl e, w1) \<Rightarrow> (Inl e, w1)
                | (Inr dubbed_audio, w1) \<Rightarrow>
                    let final_audio =
                          (case original_audio of
                             Some oa \<Rightarrow> CompositeAudioClip [oa, dubbed_audio]
                           | None \<Rightarrow> dubbed_audio);
                        final_video =
                          \<lparr>fv_video = v_path video, fv_duration = v_duration video,
                           fv_audio = final_audio\<rparr>;
                        w2 = w1\<lparr>renders := renders w1 @ [(output_path, final_video)]\<rparr>
                    in
                    (case write_videofile x final_video of
                       None \<Rightarrow> (Inl (OSError output_path), w2)
                     | Some b \<Rightarrow> (Inr output_path, w2\<lparr>files := (files w2)(output_path \<mapsto> b)\<rparr>)))))"

text \<open>
  A concrete setting for evaluation: a store holding a source video and a dub; decoders
  that report the given durations; an ffmpeg that either writes its output file and exits
  with 0 or exits with 1; an encoder that writes; an operating system in which
  \<^verbatim>\<open>output\<close> is the one directory and a path is the same file as itself only. The
  floats 23.04 and 28.8 are written out.
\<close>

definition demo_files :: "path \<rightharpoonup> bytes" where
  "demo_files = [''temp/source_video.mp4'' \<mapsto> [1, 2], ''temp/dubbed_audio.mp3'' \<mapsto> [3, 4, 5]]"

definition demo_world :: world where
  "demo_world = \<lparr>files = demo_files, calls = [], renders = []\<rparr>"

definition demo_tool :: "bool \<Rightarrow> command \<Rightarrow> (path \<rightharpoonup> bytes) \<Rightarrow> (int \<times> (path \<rightharpoonup> bytes)) option" where
  "demo_tool ok cmd fs =
     (case cmd of FfmpegAtempo i f out \<Rightarrow> if ok then Some (0, fs(out \<mapsto> [6])) else Some (1, fs))"

definition demo_copy_refused :: "path \<Rightarrow> path \<Rightarrow> (path \<rightharpoonup> bytes) \<Rightarrow> error option" where
  "demo_copy_refused src dst fs = (if src = dst then Some (SameFileError src) else None)"

definition demo_is_dir :: "path \<Rightarrow> bool" where
  "demo_is_dir p = (p = ''output'')"

definition demo_ext :: "double \<Rightarrow> bool \<Rightarrow> double \<Rightarrow> bool \<Rightarrow> ext" where
  "demo_ext vd has_audio dd ok =
     \<lparr>run_tool = demo_tool ok,
      audio_duration = (\<lambda>b. Some dd),
      video_info = (\<lambda>b. Some (vd, has_audio)),
      write_videofile = (\<lambda>fv. Some [7]),
      copy_refused = demo_copy_refused,
      is_dir = demo_is_dir\<rparr>"

definition float_23_04 :: double where
  "float_23_04 = Double False 6485183463413514 (- 48)"

definition float_28_8 :: double where
  "float_28_8 = Double False 8106479329266893 (- 48)"

section \<open>Chunked translation: \<open>translate_text\<close>\<close>

text \<open>
  A Python \<^verbatim>\<open>str\<close> is a sequence of Unicode code points, and \<^verbatim>\<open>len\<close> counts
  them: a text is a list of code points.
\<close>

type_synonym str = "nat list"

definition py :: "string \<Rightarrow> str" where
  "py s = map of_char s"

definition max_chunk_size :: nat where
  "max_chunk_size = 4500"

text \<open>The code points Python counts as whitespace, in \<^verbatim>\<open>\s\<close> and in
  \<^verbatim>\<open>str.strip()\<close> alike.\<close>

definition isspace :: "nat \<Rightarrow> bool" where
  "isspace c = (c \<in> set [9, 10, 11, 12, 13, 28, 29, 30, 31, 32, 133, 160, 5760,
       8192, 8193, 8194, 8195, 8196, 8197, 8198, 8199, 8200, 8201, 8202,
       8232, 8233, 8239, 8287, 12288])"

text \<open>The characters of the class \<^verbatim>\<open>[.!?]\<close>.\<close>

definition is_terminator :: "nat \<Rightarrow> bool" where
  "is_terminator c = (c = 46 \<or> c = 33 \<or> c = 63)"

text \<open>
  \<^verbatim>\<open>re.split(r'(?<=[.!?])\s+', text)\<close>: the text is cut at every longest run of
  whitespace that starts right after a terminator, and the run is dropped. \<open>after_term\<close>
  says that the character before the scanning position is a terminator; \<open>piece\<close> is the
  piece read so far. The piece after the last cut is returned even when it is empty.
\<close>

function split_scan :: "bool \<Rightarrow> str \<Rightarrow> str \<Rightarrow> str list" where
  "split_scan after_term piece [] = [piece]"
| "split_scan after_term piece (c # cs) =
     (if after_term \<and> isspace c then piece # split_scan False [] (dropWhile isspace cs)
      else split_scan (is_terminator c) (piece @ [c]) cs)"
  by pat_completeness auto
termination
  by (relation "measure (\<lambda>(a, p, cs). length cs)")
     (auto simp: length_dropWhile_le less_Suc_eq_le)

definition re_split :: "str \<Rightarrow> str list" where
  "re_split text = split_scan False [] text"

definition strip :: "str \<Rightarrow> str" where
  "strip s = rev (dropWhile isspace (rev (dropWhile isspace s)))"

text \<open>\<^verbatim>\<open>" ".join(xs)\<close>.\<close>

fun join_space :: "str list \<Rightarrow> str" where
  "join_space [] = []"
| "join_space [x] = x"
| "join_space (x # y # ys) = x @ [32] @ join_space (y # ys)"

text \<open>The loop over the sentences, with the list \<open>chunks\<close> and the string
  \<open>current_chunk\<close> as its state.\<close>

fun chunk_loop :: "str list \<Rightarrow> str list \<Rightarrow> str \<Rightarrow> str list \<times> str" where
  "chunk_loop [] chunks current_chunk = (chunks, current_chunk)"
| "chunk_loop (sentence # rest) chunks current_chunk =
     (if length current_chunk + length sentence < max_chunk_size
      then chunk_loop rest chunks (current_chunk @ [32] @ sentence)
      else chunk_loop rest
             (if current_chunk \<noteq> [] then chunks @ [strip current_chunk] else chunks)
             sentence)"

text \<open>The statement after the loop: the chunk in progress is appended unless it is empty.\<close>

definition finish :: "str list \<times> str \<Rightarrow> str list" where
  "finish r =
     (case r of (chunks, current_chunk) \<Rightarrow>
        if current_chunk \<noteq> [] then chunks @ [strip current_chunk] else chunks)"

text \<open>The chunks of a text: the sentences, the loop, and the last chunk if there is one.\<close>

definition make_chunks :: "str \<Rightarrow> str list" where
  "make_chunks text = (let sentences = re_split text in finish (chunk_loop sentences [] []))"

text \<open>
  An exception raised by a collaborator is an instance of \<^verbatim>\<open>Exception\<close>, which
  \<^verbatim>\<open>except Exception\<close> catches, or one of the other instances of
  \<^verbatim>\<open>BaseException\<close> (\<^verbatim>\<open>KeyboardInterrupt\<close>, \<^verbatim>\<open>SystemExit\<close>,
  \<^verbatim>\<open>asyncio.CancelledError\<close>), which it does not catch. Each carries its message.
\<close>

datatype exn = Exception str | BaseExceptionOnly str

fun message :: "exn \<Rightarrow> str" where
  "message (Exception m) = m"
| "message (BaseExceptionOnly m) = m"

text \<open>The loop that translates the chunks: a chunk whose translation raises an
  \<^verbatim>\<open>Exception\<close> is kept as it is; any other raise leaves the loop and the function.\<close>

fun translate_chunks :: "(str \<Rightarrow> exn + str) \<Rightarrow> str list \<Rightarrow> exn + str list" where
  "translate_chunks translator [] = Inr []"
| "translate_chunks translator (chunk # rest) =
     (case translator chunk of
        Inr translated_chunk \<Rightarrow>
          (case translate_chunks translator rest of
             Inl e \<Rightarrow> Inl e
           | Inr translated_chunks \<Rightarrow> Inr (translated_chunk # translated_chunks))
      | Inl (Exception m) \<Rightarrow>
          (case translate_chunks translator rest of
             Inl e \<Rightarrow> Inl e
           | Inr translated_chunks \<Rightarrow> Inr (chunk # translated_chunks))
      | Inl (BaseExceptionOnly m) \<Rightarrow> Inl (BaseExceptionOnly m))"

text \<open>
  \<open>translate_text\<close>. \<open>GoogleTranslator\<close> is the constructor call
  \<^verbatim>\<open>GoogleTranslator(source='auto', target=target_lang)\<close> of the external library: it
  returns the translator, a map from a text to its translation or to the exception it
  raises, or raises itself. The call is outside every \<^verbatim>\<open>try\<close>.
\<close>

definition translate_text ::
    "(str \<Rightarrow> exn + (str \<Rightarrow> exn + str)) \<Rightarrow> str \<Rightarrow> str \<Rightarrow> exn + str" where
  "translate_text GoogleTranslator text target_lang =
     (case GoogleTranslator target_lang of
        Inl e \<Rightarrow> Inl e
      | Inr translator \<Rightarrow>
          if length text \<le> max_chunk_size then translator text
          else
            (case translate_chunks translator (make_chunks text) of
               Inl e \<Rightarrow> Inl e
             | Inr translated_chunks \<Rightarrow> Inr (join_space translated_chunks)))"

text \<open>
  For evaluation: a text of 4507 characters, two short sentences and one of 4501
  characters; a translator that answers \<^verbatim>\<open>#\<close> to every text; a translator that raises
  an \<^verbatim>\<open>Exception\<close> on every text starting with \<^verbatim>\<open>a\<close> and answers
  \<^verbatim>\<open>X\<close> otherwise; one that is interrupted on the texts starting with \<^verbatim>\<open>a\<close>;
  and a constructor that knows every language but \<^verbatim>\<open>xx\<close>.
\<close>

definition demo_text :: str where
  "demo_text = py ''a. b. '' @ replicate 4501 99"

definition demo_marker :: "str \<Rightarrow> exn + str" where
  "demo_marker c = Inr [35]"

definition demo_translator :: "str \<Rightarrow> exn + str" where
  "demo_translator c =
     (case c of [] \<Rightarrow> Inr [] | x # xs \<Rightarrow> if x = 97 then Inl (Exception (py ''timeout'')) else Inr [88])"

definition demo_interrupted :: "str \<Rightarrow> exn + str" where
  "demo_interrupted c =
     (case c of [] \<Rightarrow> Inr []
      | x # xs \<Rightarrow> if x = 97 then Inl (BaseExceptionOnly (py ''KeyboardInterrupt'')) else Inr [88])"

definition demo_GoogleTranslator :: "(str \<Rightarrow> exn + str) \<Rightarrow> str \<Rightarrow> exn + (str \<Rightarrow> exn + str)" where
  "demo_GoogleTranslator translator target_lang =
     (if target_lang = py ''xx'' then Inl (Exception (py ''LanguageNotSupported''))
      else Inr translator)"

section \<open>The batch runner: \<open>batch_process\<close>\<close>

text \<open>
  One entry of the result list: the dictionary with the keys \<^verbatim>\<open>url\<close>,
  \<^verbatim>\<open>status\<close> and \<^verbatim>\<open>output\<close> or \<^verbatim>\<open>error\<close>.
\<close>

datatype job_result = Success str str | Failed str str

fun result_url :: "job_result \<Rightarrow> str" where
  "result_url (Success url output) = url"
| "result_url (Failed url err) = url"

fun is_success :: "job_result \<Rightarrow> bool" where
  "is_success (Success url output) = True"
| "is_success (Failed url err) = False"

fun is_failed :: "job_result \<Rightarrow> bool" where
  "is_failed (Success url output) = False"
| "is_failed (Failed url err) = True"

record batch_report =
  report_results :: "job_result list"
  report_success :: nat
  report_failed :: nat

text \<open>What \<open>batch_process\<close> can raise: the batch file cannot be opened, or a job raised
  something that \<^verbatim>\<open>except Exception\<close> does not catch.\<close>

datatype batch_raise = CannotOpen path | Uncaught exn

text \<open>
  The URLs of the batch file: of every line that is not blank after stripping and does not
  start with \<^verbatim>\<open>#\<close>, the stripped line.
\<close>

definition read_urls :: "str list \<Rightarrow> str list" where
  "read_urls file_lines =
     map strip (filter (\<lambda>line. strip line \<noteq> [] \<and> \<not> (case line of [] \<Rightarrow> False | c # cs \<Rightarrow> c = 35)) file_lines)"

text \<open>
  The loop over the URLs. \<open>process_video\<close> is the pipeline for one video, taken with any
  behaviour: it runs in the state the previous job left, changes it, and returns the output
  path or raises. An \<^verbatim>\<open>Exception\<close> is recorded with its message,
  \<^verbatim>\<open>str(e)\<close>, and the loop goes on; any other raise leaves the loop and the function,
  and no list is returned.
\<close>

fun batch_loop ::
    "(str \<Rightarrow> str \<Rightarrow> 's \<Rightarrow> (exn + str) \<times> 's) \<Rightarrow> str \<Rightarrow> str list \<Rightarrow>
     job_result list \<Rightarrow> 's \<Rightarrow> (exn + job_result list) \<times> 's" where
  "batch_loop process_video target_lang [] results s = (Inr results, s)"
| "batch_loop process_video target_lang (url # urls) results s =
     (case process_video url target_lang s of
        (Inr output, s1) \<Rightarrow>
          batch_loop process_video target_lang urls (results @ [Success url output]) s1
      | (Inl (Exception m), s1) \<Rightarrow>
          batch_loop process_video target_lang urls (results @ [Failed url m]) s1
      | (Inl (BaseExceptionOnly m), s1) \<Rightarrow> (Inl (BaseExceptionOnly m), s1))"

text \<open>\<open>batch_process\<close>: \<open>batch_files\<close> holds the lines of the text files that can be
  opened. The counts are the summary the function prints; it returns the list.\<close>

definition batch_process ::
    "(str \<Rightarrow> str \<Rightarrow> 's \<Rightarrow> (exn + str) \<times> 's) \<Rightarrow> (path \<rightharpoonup> str list) \<Rightarrow>
     path \<Rightarrow> str \<Rightarrow> 's \<Rightarrow> (batch_raise + batch_report) \<times> 's" where
  "batch_process process_video batch_files urls_file target_lang s =
     (case batch_files urls_file of
        None \<Rightarrow> (Inl (CannotOpen urls_file), s)
      | Some file_lines \<Rightarrow>
          let urls = read_urls file_lines in
          (case batch_loop process_video target_lang urls [] s of
             (Inl e, s1) \<Rightarrow> (Inl (Uncaught e), s1)
           | (Inr results, s1) \<Rightarrow>
               (Inr \<lparr>report_results = results,
                     report_success = length (filter is_success results),
                     report_failed = length (filter is_failed results)\<rparr>, s1)))"

text \<open>
  For stating what the runner does: the state in which each job starts when the jobs run one
  after another, each in the state the one before it left; and the entry the runner records
  for a job that returns or raises an \<^verbatim>\<open>Exception\<close> in state \<open>s\<close>.
\<close>

fun states_before ::
    "(str \<Rightarrow> str \<Rightarrow> 's \<Rightarrow> (exn + str) \<times> 's) \<Rightarrow> str \<Rightarrow> str list \<Rightarrow> 's \<Rightarrow> 's list" where
  "states_before process_video target_lang [] s = []"
| "states_before process_video target_lang (url # urls) s =
     s # states_before process_video target_lang urls (snd (process_video url target_lang s))"

definition job_outcome ::
    "(str \<Rightarrow> str \<Rightarrow> 's \<Rightarrow> (exn + str) \<times> 's) \<Rightarrow> str \<Rightarrow> str \<Rightarrow> 's \<Rightarrow> job_result" where
  "job_outcome process_video target_lang url s =
     (case fst (process_video url target_lang s) of
        Inr output \<Rightarrow> Success url output
      | Inl e \<Rightarrow> Failed url (message e))"

text \<open>A job is interrupted: it raises something \<^verbatim>\<open>except Exception\<close> does not
  catch.\<close>

definition interrupted ::
    "(str \<Rightarrow> str \<Rightarrow> 's \<Rightarrow> (exn + str) \<times> 's) \<Rightarrow> str \<Rightarrow> str \<Rightarrow> 's \<Rightarrow> bool" where
  "interrupted process_video target_lang url s =
     (case fst (process_video url target_lang s) of
        Inl (BaseExceptionOnly m) \<Rightarrow> True
      | Inl (Exception m) \<Rightarrow> False
      | Inr output \<Rightarrow> False)"

text \<open>Batches for evaluation: five lines, of which one is a comment and one is blank; the
  same with a job that is interrupted; a pipeline that logs the URL it is given, fails on
  \<^verbatim>\<open>bad\<close> with the message \<^verbatim>\<open>error\<close> and is interrupted on
  \<^verbatim>\<open>stop\<close>.\<close>

definition demo_lines :: "str list" where
  "demo_lines = [py ''u1\<newline>'', py ''# skip\<newline>'', py '' \<newline>'', py ''bad\<newline>'', py '' u3 \<newline>'']"

definition demo_lines_stop :: "str list" where
  "demo_lines_stop = [py ''u1\<newline>'', py ''stop\<newline>'', py ''u3\<newline>'']"

definition demo_process_video :: "str \<Rightarrow> str \<Rightarrow> str list \<Rightarrow> (exn + str) \<times> str list" where
  "demo_process_video url target_lang s =
     (if url = py ''bad'' then (Inl (Exception (py ''error'')), s @ [url])
      else if url = py ''stop'' then (Inl (BaseExceptionOnly (py ''KeyboardInterrupt'')), s @ [url])
      else (Inr (py ''out_'' @ url), s @ [url]))"

text \<open>The audio the encoder is expected to receive when \<open>dub\<close> is the dub track: the
  dub over the attenuated original audio, or the dub alone when the video has none.\<close>

abbreviation over_bed :: "video_clip \<Rightarrow> real \<Rightarrow> audio_clip \<Rightarrow> audio_clip" where
  "over_bed video vol dub \<equiv>
     (case v_audio video of None \<Rightarrow> dub | Some a \<Rightarrow> CompositeAudioClip [Volumex a vol, dub])"

text \<open>The transform fails: ffmpeg is not installed, or exits with a status other than 0.\<close>

definition tool_fails :: "ext \<Rightarrow> command \<Rightarrow> (path \<rightharpoonup> bytes) \<Rightarrow> bool" where
  "tool_fails x cmd fs = (case run_tool x cmd fs of None \<Rightarrow> True | Some (rc, fs') \<Rightarrow> rc \<noteq> 0)"

section \<open>Rounding and the float quotient\<close>

lemma round_half_even_cases:
  "(round_half_even y = \<lfloor>y\<rfloor> \<and> y - of_int \<lfloor>y\<rfloor> \<le> 1 / 2) \<or>
   (round_half_even y = \<lfloor>y\<rfloor> + 1 \<and> 1 / 2 \<le> y - of_int \<lfloor>y\<rfloor>)"
  by (auto simp: round_half_even_def Let_def)

lemma round_half_even_le: "y \<le> of_int N \<Longrightarrow> round_half_even y \<le> N"
  using round_half_even_cases [of y] of_int_floor_le [of y] floor_correct [of y]
  by linarith

lemma round_half_even_ge: "of_int N \<le> y \<Longrightarrow> N \<le> round_half_even y"
  using round_half_even_cases [of y] of_int_floor_le [of y] floor_correct [of y]
  by linarith

lemma round_half_even_gt: "of_int N + 1 / 2 < y \<Longrightarrow> N + 1 \<le> round_half_even y"
  using round_half_even_cases [of y] of_int_floor_le [of y] floor_correct [of y]
  by linarith

lemma round_half_even_near: "\<bar>y - of_int N\<bar> < 1 / 2 \<Longrightarrow> round_half_even y = N"
  using round_half_even_cases [of y] of_int_floor_le [of y] floor_correct [of y]
  by linarith

lemma binade_eq:
  assumes "2 powr real_of_int e \<le> x" and "x < 2 powr real_of_int (e + 1)"
  shows "binade x = e"
proof -
  have "(0::real) < 2 powr real_of_int e" by simp
  with assms(1) have "0 < x" by linarith
  then show ?thesis
    unfolding binade_def using assms
    by (simp add: floor_eq_iff le_log_iff log_less_iff add.commute)
qed

lemma binade_bounds:
  assumes "0 < x"
  shows "2 powr real_of_int (binade x) \<le> x" and "x < 2 * 2 powr real_of_int (binade x)"
proof -
  have "real_of_int \<lfloor>log 2 x\<rfloor> \<le> log 2 x" by simp
  then show "2 powr real_of_int (binade x) \<le> x"
    unfolding binade_def using assms le_log_iff [of 2 x "real_of_int \<lfloor>log 2 x\<rfloor>"] by simp
  have "log 2 x < real_of_int \<lfloor>log 2 x\<rfloor> + 1" by linarith
  then have "x < 2 powr (real_of_int \<lfloor>log 2 x\<rfloor> + 1)"
    using assms log_less_iff [of 2 x "real_of_int \<lfloor>log 2 x\<rfloor> + 1"] by simp
  then show "x < 2 * 2 powr real_of_int (binade x)"
    unfolding binade_def by (simp add: powr_add)
qed

lemma powr_int_diff: "2 powr (real_of_int e - 52) = 2 powr real_of_int e / 2 ^ 52"
proof -
  have "2 powr (real_of_int e - 52) = 2 powr real_of_int e / 2 powr 52"
    by (simp add: powr_diff)
  also have "(2::real) powr 52 = 2 ^ 52" by simp
  finally show ?thesis .
qed

lemma round_double_pos:
  assumes "0 < x"
  shows "round_double x =
    of_int (round_half_even (x * 2 ^ 52 / 2 powr real_of_int (binade x))) *
      (2 powr real_of_int (binade x) / 2 ^ 52)"
  using assms by (simp add: round_double_def Let_def powr_int_diff)

lemma powr_int_le_half: "e \<le> - 1 \<Longrightarrow> 2 powr real_of_int e \<le> 1 / 2"
proof -
  assume "e \<le> - 1"
  then have "real_of_int e \<le> - 1" by linarith
  then have "(2::real) powr real_of_int e \<le> 2 powr (- 1)"
    by (rule powr_mono) simp
  also have "(2::real) powr (- 1) = 1 / 2" by (simp add: powr_minus divide_simps)
  finally show ?thesis .
qed

lemma powr_int_ge_two: "1 \<le> e \<Longrightarrow> 2 \<le> 2 powr real_of_int e"
proof -
  assume "1 \<le> e"
  then have "1 \<le> real_of_int e" by linarith
  then have "(2::real) powr 1 \<le> 2 powr real_of_int e"
    by (rule powr_mono) simp
  then show ?thesis by simp
qed

lemma round_double_le_max:
  assumes "x \<le> 5 / 4"
  shows "round_double x \<le> 5 / 4"
proof -
  consider "x = 0" | "x < 0" | "0 < x" by linarith
  then show ?thesis
  proof cases
    case 1
    then show ?thesis by (simp add: round_double_def)
  next
    case 2
    let ?u = "2 powr real_of_int (binade \<bar>x\<bar> - 52)"
    have "0 \<le> \<bar>x\<bar> / ?u" by simp
    then have "0 \<le> round_half_even (\<bar>x\<bar> / ?u)"
      using round_half_even_ge [of 0 "\<bar>x\<bar> / ?u"] by simp
    then have "0 \<le> of_int (round_half_even (\<bar>x\<bar> / ?u)) * ?u" by simp
    with 2 show ?thesis by (simp add: round_double_def Let_def sgn_if)
  next
    case 3
    define e where "e = binade x"
    define P where "P = 2 powr real_of_int e"
    have P: "0 < P" by (simp add: P_def)
    have lo: "P \<le> x" and hi: "x < 2 * P"
      using binade_bounds [OF 3] by (simp_all add: e_def P_def)
    have r: "round_double x = of_int (round_half_even (x * 2 ^ 52 / P)) * (P / 2 ^ 52)"
      using round_double_pos [OF 3] by (simp only: e_def P_def)
    show ?thesis
    proof (cases "e \<le> - 1")
      case True
      then have P2: "P \<le> 1 / 2"
        unfolding P_def by (rule powr_int_le_half)
      have "x * 2 ^ 52 / P < 2 ^ 53"
        using hi P by (simp add: divide_simps)
      then have "x * 2 ^ 52 / P \<le> of_int (2 ^ 53)" by simp
      then have "round_half_even (x * 2 ^ 52 / P) \<le> 2 ^ 53"
        by (rule round_half_even_le)
      then have "real_of_int (round_half_even (x * 2 ^ 52 / P)) \<le> real_of_int (2 ^ 53)"
        by (simp only: of_int_le_iff)
      then have "real_of_int (round_half_even (x * 2 ^ 52 / P)) \<le> 2 ^ 53"
        by simp
      then have "round_double x \<le> 2 ^ 53 * (P / 2 ^ 52)"
        unfolding r using P by (intro mult_right_mono) simp_all
      also have "\<dots> = 2 * P" by simp
      finally show ?thesis using P2 by simp
    next
      case False
      then have "0 \<le> e" by simp
      have "P < 2" using lo assms by simp
      then have "\<not> 1 \<le> e" using powr_int_ge_two [of e] by (auto simp: P_def)
      with \<open>0 \<le> e\<close> have "e = 0" by simp
      then have P1: "P = 1" by (simp add: P_def)
      have "x * 2 ^ 52 / P \<le> of_int (5 * 2 ^ 50)"
        using assms by (simp add: P1)
      then have "round_half_even (x * 2 ^ 52 / P) \<le> 5 * 2 ^ 50"
        by (rule round_half_even_le)
      then have "real_of_int (round_half_even (x * 2 ^ 52 / P)) \<le> real_of_int (5 * 2 ^ 50)"
        by (simp only: of_int_le_iff)
      then have "real_of_int (round_half_even (x * 2 ^ 52 / P)) \<le> 5 * 2 ^ 50"
        by simp
      then show ?thesis unfolding r P1 by simp
    qed
  qed
qed

lemma round_double_gt_one:
  assumes "1 + 1 / 2 ^ 53 < x"
  shows "1 < round_double x"
proof -
  have "(0::real) < 1 / 2 ^ 53" by simp
  with assms have one: "1 < x" by linarith
  then have pos: "0 < x" by simp
  define e where "e = binade x"
  define P where "P = 2 powr real_of_int e"
  have P: "0 < P" by (simp add: P_def)
  have lo: "P \<le> x" and hi: "x < 2 * P"
    using binade_bounds [OF pos] by (simp_all add: e_def P_def)
  have r: "round_double x = of_int (round_half_even (x * 2 ^ 52 / P)) * (P / 2 ^ 52)"
    using round_double_pos [OF pos] by (simp only: e_def P_def)
  have "1 / 2 < P" using hi one by simp
  then have "\<not> e \<le> - 1" using powr_int_le_half [of e] by (auto simp: P_def)
  then have e0: "0 \<le> e" by linarith
  show ?thesis
  proof (cases "e = 0")
    case True
    then have P1: "P = 1" by (simp add: P_def)
    have "of_int (2 ^ 52) + 1 / 2 < x * 2 ^ 52 / P"
      using assms by (simp add: P1 field_simps)
    then have "2 ^ 52 + 1 \<le> round_half_even (x * 2 ^ 52 / P)"
      by (rule round_half_even_gt)
    then have "real_of_int (2 ^ 52 + 1) \<le> real_of_int (round_half_even (x * 2 ^ 52 / P))"
      by (simp only: of_int_le_iff)
    then have "2 ^ 52 + 1 \<le> real_of_int (round_half_even (x * 2 ^ 52 / P))"
      by simp
    then show ?thesis unfolding r P1 by (simp add: field_simps)
  next
    case False
    with e0 have "1 \<le> e" by simp
    then have P2: "2 \<le> P" unfolding P_def by (rule powr_int_ge_two)
    have "of_int (2 ^ 52) \<le> x * 2 ^ 52 / P"
      using lo P by (simp add: field_simps)
    then have "2 ^ 52 \<le> round_half_even (x * 2 ^ 52 / P)"
      by (rule round_half_even_ge)
    then have "real_of_int (2 ^ 52) \<le> real_of_int (round_half_even (x * 2 ^ 52 / P))"
      by (simp only: of_int_le_iff)
    then have "2 ^ 52 \<le> real_of_int (round_half_even (x * 2 ^ 52 / P))"
      by simp
    then have "2 ^ 52 * (P / 2 ^ 52) \<le> round_double x"
      unfolding r using P by (intro mult_right_mono) simp_all
    then show ?thesis using P2 by simp
  qed
qed


lemma powr_int_split:
  assumes "e1 \<le> e2"
  shows "2 powr real_of_int e2 = 2 ^ nat (e2 - e1) * 2 powr real_of_int e1"
proof -
  have "real_of_int e2 = real (nat (e2 - e1)) + real_of_int e1"
    using assms by simp
  then have "(2::real) powr real_of_int e2 = 2 powr real (nat (e2 - e1)) * 2 powr real_of_int e1"
    by (simp only: powr_add)
  then show ?thesis by (simp only: powr_realpow [of 2, simplified])
qed

lemma val_pos:
  assumes "0 < val d"
  shows "val d = real (unat (mantissa d)) * 2 powr real_of_int (exponent d)"
proof -
  have "0 \<le> real (unat (mantissa d)) * 2 powr real_of_int (exponent d)"
    by (intro mult_nonneg_nonneg) (simp_all del: of_nat_unat)
  with assms have "\<not> negative d"
    unfolding val_def by (cases "negative d") simp_all
  then show ?thesis by (simp add: val_def del: of_nat_unat)
qed

lemma double_gap:
  assumes "0 < val b" and "val b < val a"
  shows "1 + 1 / 2 ^ 53 < val a / val b"
proof -
  from assms have pa: "0 < val a" by linarith
  define A where "A = unat (mantissa a)"
  define B where "B = unat (mantissa b)"
  define Pa where "Pa = 2 powr real_of_int (exponent a)"
  define Pb where "Pb = 2 powr real_of_int (exponent b)"
  have "unat (mantissa a) < 2 ^ LENGTH(53)" by (rule unsigned_less)
  then have A: "A < 2 ^ 53" by (simp add: A_def)
  have "unat (mantissa b) < 2 ^ LENGTH(53)" by (rule unsigned_less)
  then have B: "B < 2 ^ 53" by (simp add: B_def)
  have P: "0 < Pa" "0 < Pb" by (simp_all add: Pa_def Pb_def)
  have va: "val a = real A * Pa" unfolding A_def Pa_def using pa by (rule val_pos)
  have vb: "val b = real B * Pb" unfolding B_def Pb_def using assms(1) by (rule val_pos)
  have H: "real B * Pb < real A * Pa" using assms(2) va vb by simp
  have "real B < real (2 ^ 53)" using B by (simp only: of_nat_less_iff)
  then have rB: "real B < 2 ^ 53" by simp
  have goal: "(1 + 1 / 2 ^ 53) * (real B * Pb) < real A * Pa"
  proof (cases "exponent b \<le> exponent a")
    case True
    define k where "k = nat (exponent a - exponent b)"
    have Pa: "Pa = 2 ^ k * Pb"
      unfolding Pa_def Pb_def k_def using True by (rule powr_int_split)
    from H have "real B * Pb < (real A * 2 ^ k) * Pb" by (simp add: Pa mult.assoc)
    then have "real B < real A * 2 ^ k" using P(2) by simp
    then have "real B < real (A * 2 ^ k)" by simp
    then have "B < A * 2 ^ k" by (simp only: of_nat_less_iff)
    then have "B + 1 \<le> A * 2 ^ k" by simp
    then have "real (B + 1) \<le> real (A * 2 ^ k)" by (simp only: of_nat_le_iff)
    then have n: "real B + 1 \<le> real A * 2 ^ k" by simp
    have "(1 + 1 / 2 ^ 53) * real B < real B + 1"
      using rB by (simp add: field_simps)
    with n have "(1 + 1 / 2 ^ 53) * real B < real A * 2 ^ k" by linarith
    then have "((1 + 1 / 2 ^ 53) * real B) * Pb < (real A * 2 ^ k) * Pb"
      using P(2) by (rule mult_strict_right_mono)
    then show ?thesis by (simp add: Pa mult.assoc)
  next
    case False
    then have le: "exponent a \<le> exponent b" by simp
    define k where "k = nat (exponent b - exponent a)"
    have Pb: "Pb = 2 ^ k * Pa"
      unfolding Pa_def Pb_def k_def using le by (rule powr_int_split)
    from H have "(real B * 2 ^ k) * Pa < real A * Pa" by (simp add: Pb mult.assoc)
    then have "real B * 2 ^ k < real A" using P(1) by simp
    then have "real (B * 2 ^ k) < real A" by simp
    then have lt: "B * 2 ^ k < A" by (simp only: of_nat_less_iff)
    then have "B * 2 ^ k + 1 \<le> A" by simp
    then have "real (B * 2 ^ k + 1) \<le> real A" by (simp only: of_nat_le_iff)
    then have n: "real B * 2 ^ k + 1 \<le> real A" by simp
    from lt A have "B * 2 ^ k < 2 ^ 53" by simp
    then have "real (B * 2 ^ k) < real (2 ^ 53)" by (simp only: of_nat_less_iff)
    then have "real B * 2 ^ k < 2 ^ 53" by simp
    then have "(1 + 1 / 2 ^ 53) * (real B * 2 ^ k) < real B * 2 ^ k + 1"
      by (simp add: field_simps)
    with n have "(1 + 1 / 2 ^ 53) * (real B * 2 ^ k) < real A" by linarith
    then have "((1 + 1 / 2 ^ 53) * (real B * 2 ^ k)) * Pa < real A * Pa"
      using P(1) by (rule mult_strict_right_mono)
    then show ?thesis by (simp add: Pb mult.assoc)
  qed
  have "0 < real B * Pb" using assms(1) vb by simp
  with goal show ?thesis unfolding va vb by (simp add: pos_less_divide_eq)
qed

lemma float_div_le_max:
  assumes "0 < vd" and "dd \<le> vd * MAX_SPEED_FACTOR"
  shows "float_div dd vd \<le> MAX_SPEED_FACTOR"
proof -
  from assms have "dd / vd \<le> 5 / 4"
    by (simp add: MAX_SPEED_FACTOR_def field_simps)
  then show ?thesis
    unfolding float_div_def MAX_SPEED_FACTOR_def by (rule round_double_le_max)
qed

lemma float_div_gt_max:
  assumes "0 < vd" and "MAX_SPEED_FACTOR < float_div dd vd"
  shows "vd * MAX_SPEED_FACTOR < dd"
  using assms float_div_le_max [of vd dd] by (cases "dd \<le> vd * MAX_SPEED_FACTOR") simp_all

lemma float_div_gt_one:
  assumes "0 < val b" and "val b < val a"
  shows "1 < float_div (val a) (val b)"
  unfolding float_div_def using double_gap [OF assms] by (rule round_double_gt_one)

lemma round_double_eval:
  assumes "2 powr real_of_int e \<le> x" and "x < 2 * 2 powr real_of_int e"
    and "\<bar>x * 2 ^ 52 / 2 powr real_of_int e - of_int N\<bar> < 1 / 2"
  shows "round_double x = of_int N * (2 powr real_of_int e / 2 ^ 52)"
proof -
  have "(0::real) < 2 powr real_of_int e" by simp
  with assms(1) have pos: "0 < x" by linarith
  have "x < 2 powr real_of_int (e + 1)" using assms(2) by (simp add: powr_add)
  with assms(1) have "binade x = e" by (rule binade_eq)
  with round_double_pos [OF pos] assms(3) show ?thesis
    by (simp add: round_half_even_near)
qed

lemma float_div_33_30: "float_div 33 30 = 2476979795053773 / 2251799813685248"
proof -
  have "round_double (33 / 30) = of_int 4953959590107546 * (2 powr real_of_int 0 / 2 ^ 52)"
    by (rule round_double_eval) simp_all
  then show ?thesis by (simp add: float_div_def)
qed

lemma float_div_40_20: "float_div 40 20 = 2"
proof -
  have "round_double (40 / 20) = of_int 4503599627370496 * (2 powr real_of_int 1 / 2 ^ 52)"
    by (rule round_double_eval) simp_all
  then show ?thesis by (simp add: float_div_def)
qed

lemma val_float_23_04: "val float_23_04 = 6485183463413514 / 2 ^ 48"
  by (simp add: val_def float_23_04_def powr_neg_numeral)

lemma val_float_28_8: "val float_28_8 = 8106479329266893 / 2 ^ 48"
  by (simp add: val_def float_28_8_def powr_neg_numeral)

lemma float_div_boundary: "float_div (val float_28_8) (val float_23_04) = 5 / 4"
proof -
  have q: "val float_28_8 / val float_23_04 = 8106479329266893 / 6485183463413514"
    by (simp add: val_float_23_04 val_float_28_8)
  have "round_double (8106479329266893 / 6485183463413514) =
      of_int 5629499534213120 * (2 powr real_of_int 0 / 2 ^ 52)"
    by (rule round_double_eval) simp_all
  then show ?thesis unfolding float_div_def q by simp
qed

lemma val_whole_numbers:
  "val (Double False 0 0) = 0" "val (Double False 5 0) = 5" "val (Double False 20 0) = 20"
  "val (Double False 30 0) = 30" "val (Double False 33 0) = 33" "val (Double False 40 0) = 40"
  by (simp_all add: val_def)


section \<open>Duration reconciliation in \<open>mix_audio\<close>\<close>

lemma load_audio_val: "load_audio x p w = Inr (AudioFileClip q dd) \<Longrightarrow> \<exists>d. dd = val d"
  by (auto simp: load_audio_def split: option.splits)

lemma load_video_val: "load_video x p w = Inr video \<Longrightarrow> \<exists>d. v_duration video = val d"
  by (auto simp: load_video_def split: option.splits)

lemma effective_duration_val:
  assumes "load_video x p w = Inr video"
    and "vd = (case video_duration of None \<Rightarrow> v_duration video | Some d \<Rightarrow> val d)"
  shows "\<exists>d. vd = val d"
  using assms load_video_val [OF assms(1)] by (cases video_duration) auto

lemma speed_needed_bounds:
  assumes "0 < val b" and "val b < val a" and "val a \<le> val b * MAX_SPEED_FACTOR"
  shows "float_div (val a) (val b) \<le> MAX_SPEED_FACTOR" and "float_div (val a) (val b) \<noteq> 1"
  using float_div_le_max [OF assms(1,3)] float_div_gt_one [OF assms(1,2)] by simp_all

lemma calls_subprocess_run: "calls (snd (subprocess_run x cmd w)) = calls w @ [cmd]"
  by (simp add: subprocess_run_def Let_def split: option.splits prod.splits)

lemma renders_subprocess_run: "renders (snd (subprocess_run x cmd w)) = renders w"
  by (simp add: subprocess_run_def Let_def split: option.splits prod.splits)

text \<open>
  Claim C1. When the video lasts \<open>vd > 0\<close> seconds and the dub \<open>dd\<close> seconds with
  \<open>0 \<le> dd \<le> vd\<close>, \<open>mix_audio\<close> passes the dub through: no transform is run (the
  log of subprocess calls is unchanged, so the scale factor applied is 1), and the audio
  handed to the encoder holds the dub clip exactly as it was loaded, neither stretched nor
  cut, over the original audio (or alone, when the video has none). Here \<open>vd\<close> is the
  \<open>video_duration\<close> argument, or the loaded video's duration when the argument is left out.
\<close>

theorem mix_audio_pass_through:
  assumes "load_video x vp w = Inr video"
    and "load_audio x dp w = Inr (AudioFileClip dp dd)"
    and "vd = (case video_duration of None \<Rightarrow> v_duration video | Some d \<Rightarrow> val d)"
    and "0 < vd" and "0 \<le> dd" and "dd \<le> vd"
  shows "calls (snd (mix_audio x vp dp outp vol video_duration w)) = calls w \<and>
         renders (snd (mix_audio x vp dp outp vol video_duration w)) =
           renders w @ [(outp, \<lparr>fv_video = v_path video, fv_duration = v_duration video,
              fv_audio = over_bed video vol (AudioFileClip dp dd)\<rparr>)]"
  using assms
  by (simp add: mix_audio_def Let_def split: option.splits)

theorem mix_audio_pass_through_witness:
  "(0::real) < 30 \<and> (0::real) \<le> 20 \<and> (20::real) \<le> 30 \<and>
   calls (snd (mix_audio (demo_ext (Double False 30 0) True (Double False 20 0) True)
      ''temp/source_video.mp4'' ''temp/dubbed_audio.mp3'' ''output/out.mp4''
      ORIGINAL_AUDIO_VOLUME None demo_world)) = [] \<and>
   renders (snd (mix_audio (demo_ext (Double False 30 0) True (Double False 20 0) True)
      ''temp/source_video.mp4'' ''temp/dubbed_audio.mp3'' ''output/out.mp4''
      ORIGINAL_AUDIO_VOLUME None demo_world)) =
     [(''output/out.mp4'', \<lparr>fv_video = ''temp/source_video.mp4'', fv_duration = 30,
        fv_audio = CompositeAudioClip [Volumex (VideoAudio ''temp/source_video.mp4'' 30) (1 / 10),
                      AudioFileClip ''temp/dubbed_audio.mp3'' 20]\<rparr>)]"
  using mix_audio_pass_through [of "demo_ext (Double False 30 0) True (Double False 20 0) True"
      "''temp/source_video.mp4''" demo_world
      "\<lparr>v_path = ''temp/source_video.mp4'', v_duration = 30,
        v_audio = Some (VideoAudio ''temp/source_video.mp4'' 30)\<rparr>"
      "''temp/dubbed_audio.mp3''" 20 30 None "''output/out.mp4''" ORIGINAL_AUDIO_VOLUME]
  by (simp add: load_video_def load_audio_def demo_ext_def demo_world_def demo_files_def
      ORIGINAL_AUDIO_VOLUME_def val_whole_numbers)

text \<open>
  Claim C2. When \<open>0 < vd < dd \<le> vd * MAX_SPEED_FACTOR\<close> (\<open>MAX_SPEED_FACTOR\<close> is 1.25),
  the decision is to scale: \<open>mix_audio\<close> runs the tempo transform exactly once, on the dub
  file, with factor exactly the float quotient \<open>dd / vd\<close>, and that factor is at most
  \<open>MAX_SPEED_FACTOR\<close>. If anything is rendered afterwards, its dub is the transform's
  output file, not the original dub. With \<open>vd = 30\<close> and \<open>dd = 33\<close> the factor is the
  float 1.1 (the witness).
\<close>

theorem mix_audio_scaled:
  assumes "load_video x vp w = Inr video"
    and "load_audio x dp w = Inr (AudioFileClip dp dd)"
    and "vd = (case video_duration of None \<Rightarrow> v_duration video | Some d \<Rightarrow> val d)"
    and "0 < vd" and "vd < dd" and "dd \<le> vd * MAX_SPEED_FACTOR"
  shows "calls (snd (mix_audio x vp dp outp vol video_duration w)) =
           calls w @ [FfmpegAtempo dp (float_div dd vd) temp_adjusted] \<and>
         float_div dd vd \<le> MAX_SPEED_FACTOR \<and>
         (renders (snd (mix_audio x vp dp outp vol video_duration w)) = renders w \<or>
          (\<exists>d'. renders (snd (mix_audio x vp dp outp vol video_duration w)) =
             renders w @ [(outp, \<lparr>fv_video = v_path video, fv_duration = v_duration video,
                fv_audio = over_bed video vol (AudioFileClip temp_adjusted d')\<rparr>)]))"
proof -
  let ?cmd = "FfmpegAtempo dp (float_div dd vd) temp_adjusted"
  let ?a = "subprocess_run x ?cmd w"
  from load_audio_val [OF assms(2)] obtain fd where fd: "dd = val fd" by blast
  from effective_duration_val [OF assms(1,3)] obtain fv where fv: "vd = val fv" by blast
  from assms(4,5,6) have b: "float_div dd vd \<le> MAX_SPEED_FACTOR" "float_div dd vd \<noteq> 1"
    unfolding fd fv by (rule speed_needed_bounds)+
  have adj: "adjust_audio_speed x dp (float_div dd vd) temp_adjusted w = ?a"
    unfolding adjust_audio_speed_def using b(2) by (simp only: if_False)
  have c: "calls (snd ?a) = calls w @ [?cmd]" by (rule calls_subprocess_run)
  have r: "renders (snd ?a) = renders w" by (rule renders_subprocess_run)
  obtain res w1 where a: "?a = (res, w1)" by (cases ?a)
  with c r have cw: "calls w1 = calls w @ [?cmd]" "renders w1 = renders w" by simp_all
  have "vd \<noteq> 0" "vd < dd" using assms by simp_all
  then show ?thesis
    using assms(1,2,3) b adj a cw
    by (cases res; cases "load_audio x temp_adjusted w1")
       (auto simp: mix_audio_def Let_def load_audio_def split: option.splits)
qed

theorem mix_audio_scaled_witness:
  "(0::real) < 30 \<and> (30::real) < 33 \<and> (33::real) \<le> 30 * MAX_SPEED_FACTOR \<and>
   calls (snd (mix_audio (demo_ext (Double False 30 0) True (Double False 33 0) True)
      ''temp/source_video.mp4'' ''temp/dubbed_audio.mp3'' ''output/out.mp4''
      ORIGINAL_AUDIO_VOLUME None demo_world)) =
     [FfmpegAtempo ''temp/dubbed_audio.mp3'' (float_div 33 30) ''temp/adjusted_dub.mp3''] \<and>
   float_div 33 30 = 2476979795053773 / 2251799813685248 \<and>
   float_div 33 30 \<le> MAX_SPEED_FACTOR"
  using mix_audio_scaled [of "demo_ext (Double False 30 0) True (Double False 33 0) True"
      "''temp/source_video.mp4''" demo_world
      "\<lparr>v_path = ''temp/source_video.mp4'', v_duration = 30,
        v_audio = Some (VideoAudio ''temp/source_video.mp4'' 30)\<rparr>"
      "''temp/dubbed_audio.mp3''" 33 30 None "''output/out.mp4''" ORIGINAL_AUDIO_VOLUME]
  by (simp add: load_video_def load_audio_def demo_ext_def demo_world_def demo_files_def
      MAX_SPEED_FACTOR_def temp_adjusted_def TEMP_DIR_def val_whole_numbers float_div_33_30)

text \<open>
  Claim C3, as stated, fails in two places. The code compares the float quotient with 1.25,
  not the dub duration with the product: for the floats 23.04 and 28.8 the dub is longer
  than 1.25 times the video, but the quotient rounds to exactly 1.25, and the dub is scaled
  with factor 1.25, not truncated. And for a video duration of 0 (here passed as the
  argument, with a dub of 5 seconds) the division raises.
\<close>

theorem truncation_boundary_counterexample:
  "val float_23_04 * MAX_SPEED_FACTOR < val float_28_8 \<and>
   calls (snd (mix_audio (demo_ext float_23_04 True float_28_8 True)
      ''temp/source_video.mp4'' ''temp/dubbed_audio.mp3'' ''output/out.mp4''
      ORIGINAL_AUDIO_VOLUME None demo_world)) =
     [FfmpegAtempo ''temp/dubbed_audio.mp3'' (5 / 4) ''temp/adjusted_dub.mp3''] \<and>
   val (Double False 0 0) * MAX_SPEED_FACTOR < val (Double False 5 0) \<and>
   mix_audio (demo_ext (Double False 30 0) True (Double False 5 0) True)
      ''temp/source_video.mp4'' ''temp/dubbed_audio.mp3'' ''output/out.mp4''
      ORIGINAL_AUDIO_VOLUME (Some (Double False 0 0)) demo_world =
     (Inl ZeroDivisionError, demo_world)"
proof -
  have h: "val float_23_04 * MAX_SPEED_FACTOR < val float_28_8"
    by (simp add: val_float_23_04 val_float_28_8 MAX_SPEED_FACTOR_def)
  have lt: "val float_23_04 < val float_28_8" "val float_23_04 \<noteq> 0"
    by (simp_all add: val_float_23_04 val_float_28_8)
  have c: "calls (snd (mix_audio (demo_ext float_23_04 True float_28_8 True)
      ''temp/source_video.mp4'' ''temp/dubbed_audio.mp3'' ''output/out.mp4''
      ORIGINAL_AUDIO_VOLUME None demo_world)) =
     [FfmpegAtempo ''temp/dubbed_audio.mp3'' (5 / 4) ''temp/adjusted_dub.mp3'']"
    using lt
    by (simp add: mix_audio_def load_video_def load_audio_def demo_ext_def demo_world_def
        demo_files_def Let_def float_div_boundary MAX_SPEED_FACTOR_def adjust_audio_speed_def
        subprocess_run_def demo_tool_def temp_adjusted_def TEMP_DIR_def)
  have z: "mix_audio (demo_ext (Double False 30 0) True (Double False 5 0) True)
      ''temp/source_video.mp4'' ''temp/dubbed_audio.mp3'' ''output/out.mp4''
      ORIGINAL_AUDIO_VOLUME (Some (Double False 0 0)) demo_world =
     (Inl ZeroDivisionError, demo_world)"
    by (simp add: mix_audio_def load_video_def load_audio_def demo_ext_def demo_world_def
        demo_files_def Let_def val_whole_numbers)
  from h c z show ?thesis by (simp add: val_whole_numbers MAX_SPEED_FACTOR_def)
qed

text \<open>
  Claim C3, amended. When the video lasts \<open>vd > 0\<close> seconds and the float quotient
  \<open>dd / vd\<close> of the dub duration by it is greater than \<open>MAX_SPEED_FACTOR\<close> (1.25), the
  decision is to truncate: no tempo transform is run, and the dub handed to the encoder is
  the loaded dub clipped to the interval from 0 to \<open>vd\<close>, its first \<open>vd\<close> seconds;
  what follows is dropped. With \<open>vd = 20\<close> and \<open>dd = 40\<close> the quotient is 2 and
  the dub is cut to its first 20 seconds (the witness).
\<close>

theorem mix_audio_truncated:
  assumes "load_video x vp w = Inr video"
    and "load_audio x dp w = Inr (AudioFileClip dp dd)"
    and "vd = (case video_duration of None \<Rightarrow> v_duration video | Some d \<Rightarrow> val d)"
    and "0 < vd" and "MAX_SPEED_FACTOR < float_div dd vd"
  shows "calls (snd (mix_audio x vp dp outp vol video_duration w)) = calls w \<and>
         renders (snd (mix_audio x vp dp outp vol video_duration w)) =
           renders w @ [(outp, \<lparr>fv_video = v_path video, fv_duration = v_duration video,
              fv_audio = over_bed video vol (Subclip (AudioFileClip dp dd) 0 vd)\<rparr>)]"
proof -
  from float_div_gt_max [OF assms(4,5)] assms(4) have "vd < dd"
    by (simp add: MAX_SPEED_FACTOR_def)
  moreover from assms(4,5) have "\<not> float_div dd vd \<le> MAX_SPEED_FACTOR" "vd \<noteq> 0"
    by simp_all
  ultimately show ?thesis
    using assms(1,2,3)
    by (simp add: mix_audio_def Let_def split: option.splits)
qed

theorem mix_audio_truncated_witness:
  "(0::real) < 20 \<and> float_div 40 20 = 2 \<and> MAX_SPEED_FACTOR < float_div 40 20 \<and>
   calls (snd (mix_audio (demo_ext (Double False 20 0) True (Double False 40 0) True)
      ''temp/source_video.mp4'' ''temp/dubbed_audio.mp3'' ''output/out.mp4''
      ORIGINAL_AUDIO_VOLUME None demo_world)) = [] \<and>
   renders (snd (mix_audio (demo_ext (Double False 20 0) True (Double False 40 0) True)
      ''temp/source_video.mp4'' ''temp/dubbed_audio.mp3'' ''output/out.mp4''
      ORIGINAL_AUDIO_VOLUME None demo_world)) =
     [(''output/out.mp4'', \<lparr>fv_video = ''temp/source_video.mp4'', fv_duration = 20,
        fv_audio = CompositeAudioClip [Volumex (VideoAudio ''temp/source_video.mp4'' 20) (1 / 10),
                      Subclip (AudioFileClip ''temp/dubbed_audio.mp3'' 40) 0 20]\<rparr>)]"
  using mix_audio_truncated [of "demo_ext (Double False 20 0) True (Double False 40 0) True"
      "''temp/source_video.mp4''" demo_world
      "\<lparr>v_path = ''temp/source_video.mp4'', v_duration = 20,
        v_audio = Some (VideoAudio ''temp/source_video.mp4'' 20)\<rparr>"
      "''temp/dubbed_audio.mp3''" 40 20 None "''output/out.mp4''" ORIGINAL_AUDIO_VOLUME]
  by (simp add: load_video_def load_audio_def demo_ext_def demo_world_def demo_files_def
      MAX_SPEED_FACTOR_def ORIGINAL_AUDIO_VOLUME_def val_whole_numbers float_div_40_20)

text \<open>
  Claim C4, as stated, fails: the code has no check of a zero video duration. With a video of
  30 seconds, the argument \<open>video_duration = 0\<close> and a dub of duration 0, the comparison
  \<open>dubbed_duration > video_duration\<close> is false: the reconciliation raises nothing, runs
  no transform and hands the dub, as loaded, to the encoder.
\<close>

theorem zero_video_duration_counterexample:
  "calls (snd (mix_audio (demo_ext (Double False 30 0) True (Double False 0 0) True)
      ''temp/source_video.mp4'' ''temp/dubbed_audio.mp3'' ''output/out.mp4''
      ORIGINAL_AUDIO_VOLUME (Some (Double False 0 0)) demo_world)) = [] \<and>
   renders (snd (mix_audio (demo_ext (Double False 30 0) True (Double False 0 0) True)
      ''temp/source_video.mp4'' ''temp/dubbed_audio.mp3'' ''output/out.mp4''
      ORIGINAL_AUDIO_VOLUME (Some (Double False 0 0)) demo_world)) =
     [(''output/out.mp4'', \<lparr>fv_video = ''temp/source_video.mp4'', fv_duration = 30,
        fv_audio = CompositeAudioClip [Volumex (VideoAudio ''temp/source_video.mp4'' 30) (1 / 10),
                      AudioFileClip ''temp/dubbed_audio.mp3'' 0]\<rparr>)]"
  by (simp add: mix_audio_def load_video_def load_audio_def demo_ext_def demo_world_def
      demo_files_def ORIGINAL_AUDIO_VOLUME_def Let_def val_whole_numbers)

text \<open>
  Claim C4, amended. When the video duration is 0 and the dub is longer than 0,
  \<open>mix_audio\<close> fails in the reconciliation, with the \<open>ZeroDivisionError\<close> of the
  division \<open>dubbed_duration / video_duration\<close>, before anything is transformed or
  rendered. When the dub duration is 0 and the video duration is greater than 0, the result
  is pass-through with the silent dub and the reconciliation does not crash: no transform is
  run, the dub is handed to the encoder as loaded, and the only exception \<open>mix_audio\<close>
  can then raise is the encoder's.
\<close>

theorem mix_audio_degenerate:
  assumes "load_video x vp w = Inr video"
    and "load_audio x dp w = Inr (AudioFileClip dp dd)"
    and "vd = (case video_duration of None \<Rightarrow> v_duration video | Some d \<Rightarrow> val d)"
  shows "(vd = 0 \<and> 0 < dd \<longrightarrow>
            mix_audio x vp dp outp vol video_duration w = (Inl ZeroDivisionError, w)) \<and>
         (dd = 0 \<and> 0 < vd \<longrightarrow>
            calls (snd (mix_audio x vp dp outp vol video_duration w)) = calls w \<and>
            renders (snd (mix_audio x vp dp outp vol video_duration w)) =
              renders w @ [(outp, \<lparr>fv_video = v_path video, fv_duration = v_duration video,
                 fv_audio = over_bed video vol (AudioFileClip dp dd)\<rparr>)] \<and>
            (fst (mix_audio x vp dp outp vol video_duration w) = Inr outp \<or>
             fst (mix_audio x vp dp outp vol video_duration w) = Inl (OSError outp)))"
  using assms
  by (simp add: mix_audio_def Let_def split: option.splits)

theorem mix_audio_degenerate_witness:
  "mix_audio (demo_ext (Double False 30 0) True (Double False 5 0) True)
      ''temp/source_video.mp4'' ''temp/dubbed_audio.mp3'' ''output/out.mp4''
      ORIGINAL_AUDIO_VOLUME (Some (Double False 0 0)) demo_world =
     (Inl ZeroDivisionError, demo_world) \<and>
   calls (snd (mix_audio (demo_ext (Double False 30 0) True (Double False 0 0) True)
      ''temp/source_video.mp4'' ''temp/dubbed_audio.mp3'' ''output/out.mp4''
      ORIGINAL_AUDIO_VOLUME None demo_world)) = [] \<and>
   renders (snd (mix_audio (demo_ext (Double False 30 0) True (Double False 0 0) True)
      ''temp/source_video.mp4'' ''temp/dubbed_audio.mp3'' ''output/out.mp4''
      ORIGINAL_AUDIO_VOLUME None demo_world)) =
     [(''output/out.mp4'', \<lparr>fv_video = ''temp/source_video.mp4'', fv_duration = 30,
        fv_audio = CompositeAudioClip [Volumex (VideoAudio ''temp/source_video.mp4'' 30) (1 / 10),
                      AudioFileClip ''temp/dubbed_audio.mp3'' 0]\<rparr>)]"
  using mix_audio_degenerate [of "demo_ext (Double False 30 0) True (Double False 5 0) True"
      "''temp/source_video.mp4''" demo_world
      "\<lparr>v_path = ''temp/source_video.mp4'', v_duration = 30,
        v_audio = Some (VideoAudio ''temp/source_video.mp4'' 30)\<rparr>"
      "''temp/dubbed_audio.mp3''" 5 0 "Some (Double False 0 0)" "''output/out.mp4''"
      ORIGINAL_AUDIO_VOLUME]
    mix_audio_degenerate [of "demo_ext (Double False 30 0) True (Double False 0 0) True"
      "''temp/source_video.mp4''" demo_world
      "\<lparr>v_path = ''temp/source_video.mp4'', v_duration = 30,
        v_audio = Some (VideoAudio ''temp/source_video.mp4'' 30)\<rparr>"
      "''temp/dubbed_audio.mp3''" 0 30 None "''output/out.mp4''" ORIGINAL_AUDIO_VOLUME]
  by (simp add: load_video_def load_audio_def demo_ext_def demo_world_def demo_files_def
      ORIGINAL_AUDIO_VOLUME_def val_whole_numbers)

section \<open>The audio time-scaler\<close>

lemma fst_subprocess_run_fails:
  "tool_fails x cmd (files w) \<Longrightarrow>
     fst (subprocess_run x cmd w) = Inl (FileNotFoundError ''ffmpeg'') \<or>
     (\<exists>rc. rc \<noteq> 0 \<and> fst (subprocess_run x cmd w) = Inl (CalledProcessError rc))"
  by (auto simp: tool_fails_def subprocess_run_def Let_def split: option.splits)

text \<open>
  Claim C5. Whenever the tempo transform fails for a factor other than 1 (ffmpeg missing, or
  exiting with an error, as it does on an unreadable input), \<open>adjust_audio_speed\<close> raises
  and renders nothing. In \<open>mix_audio\<close>, when the dub needs scaling and the transform
  fails, the exception of \<open>adjust_audio_speed\<close> is the result of \<open>mix_audio\<close>: it
  reaches the caller, and no video is rendered, so the unscaled dub is never used in place of
  the scaled one. The exception is the one \<^verbatim>\<open>subprocess.run(..., check=True)\<close>
  raises (\<open>FileNotFoundError\<close> or \<open>CalledProcessError\<close>); it is what the
  specification calls a transcode error.
\<close>

theorem transform_failure_propagates:
  assumes "load_video x vp w = Inr video"
    and "load_audio x dp w = Inr (AudioFileClip dp dd)"
    and "vd = (case video_duration of None \<Rightarrow> v_duration video | Some d \<Rightarrow> val d)"
    and "0 < vd" and "vd < dd" and "dd \<le> vd * MAX_SPEED_FACTOR"
    and "tool_fails x (FfmpegAtempo dp (float_div dd vd) temp_adjusted) (files w)"
  shows "(\<forall>a f out w0. f \<noteq> 1 \<and> tool_fails x (FfmpegAtempo a f out) (files w0) \<longrightarrow>
            (\<exists>e. fst (adjust_audio_speed x a f out w0) = Inl e) \<and>
            renders (snd (adjust_audio_speed x a f out w0)) = renders w0) \<and>
         (\<exists>e. fst (adjust_audio_speed x dp (float_div dd vd) temp_adjusted w) = Inl e \<and>
              fst (mix_audio x vp dp outp vol video_duration w) = Inl e \<and>
              (e = FileNotFoundError ''ffmpeg'' \<or> (\<exists>rc. rc \<noteq> 0 \<and> e = CalledProcessError rc))) \<and>
         renders (snd (mix_audio x vp dp outp vol video_duration w)) = renders w"
proof -
  let ?cmd = "FfmpegAtempo dp (float_div dd vd) temp_adjusted"
  let ?a = "subprocess_run x ?cmd w"
  from load_audio_val [OF assms(2)] obtain fd where fd: "dd = val fd" by blast
  from effective_duration_val [OF assms(1,3)] obtain fv where fv: "vd = val fv" by blast
  from assms(4,5,6) have b: "float_div dd vd \<le> MAX_SPEED_FACTOR" "float_div dd vd \<noteq> 1"
    unfolding fd fv by (rule speed_needed_bounds)+
  have adj: "adjust_audio_speed x dp (float_div dd vd) temp_adjusted w = ?a"
    unfolding adjust_audio_speed_def using b(2) by (simp only: if_False)
  have r: "renders (snd ?a) = renders w" by (rule renders_subprocess_run)
  obtain res w1 where a: "?a = (res, w1)" by (cases ?a)
  with r have rw: "renders w1 = renders w" by simp
  from fst_subprocess_run_fails [OF assms(7)] a
  have e: "res = Inl (FileNotFoundError ''ffmpeg'') \<or> (\<exists>rc. rc \<noteq> 0 \<and> res = Inl (CalledProcessError rc))"
    by simp
  have gen: "\<forall>a f out w0. f \<noteq> 1 \<and> tool_fails x (FfmpegAtempo a f out) (files w0) \<longrightarrow>
            (\<exists>e. fst (adjust_audio_speed x a f out w0) = Inl e) \<and>
            renders (snd (adjust_audio_speed x a f out w0)) = renders w0"
    using fst_subprocess_run_fails renders_subprocess_run
    by (fastforce simp: adjust_audio_speed_def)
  have "vd \<noteq> 0" "vd < dd" using assms by simp_all
  then have m: "\<exists>e. res = Inl e \<and> mix_audio x vp dp outp vol video_duration w = (Inl e, w1)"
    using assms(1,2,3) b(1) adj a e
    by (auto simp: mix_audio_def Let_def)
  from e m adj a rw gen show ?thesis by auto
qed

theorem transform_failure_propagates_witness:
  "tool_fails (demo_ext (Double False 30 0) True (Double False 33 0) False)
      (FfmpegAtempo ''temp/dubbed_audio.mp3'' (float_div 33 30) temp_adjusted) (files demo_world) \<and>
   fst (adjust_audio_speed (demo_ext (Double False 30 0) True (Double False 33 0) False)
      ''temp/dubbed_audio.mp3'' (float_div 33 30) temp_adjusted demo_world) =
     Inl (CalledProcessError 1) \<and>
   fst (mix_audio (demo_ext (Double False 30 0) True (Double False 33 0) False)
      ''temp/source_video.mp4'' ''temp/dubbed_audio.mp3'' ''output/out.mp4''
      ORIGINAL_AUDIO_VOLUME None demo_world) = Inl (CalledProcessError 1) \<and>
   renders (snd (mix_audio (demo_ext (Double False 30 0) True (Double False 33 0) False)
      ''temp/source_video.mp4'' ''temp/dubbed_audio.mp3'' ''output/out.mp4''
      ORIGINAL_AUDIO_VOLUME None demo_world)) = []"
proof -
  have t: "tool_fails (demo_ext (Double False 30 0) True (Double False 33 0) False)
      (FfmpegAtempo ''temp/dubbed_audio.mp3'' (float_div 33 30) temp_adjusted) (files demo_world)"
    by (simp add: tool_fails_def demo_ext_def demo_tool_def)
  have a: "fst (adjust_audio_speed (demo_ext (Double False 30 0) True (Double False 33 0) False)
      ''temp/dubbed_audio.mp3'' (float_div 33 30) temp_adjusted demo_world) =
      Inl (CalledProcessError 1)"
    by (simp add: adjust_audio_speed_def subprocess_run_def demo_ext_def demo_tool_def Let_def
        float_div_33_30)
  from t a show ?thesis
    using transform_failure_propagates [of "demo_ext (Double False 30 0) True (Double False 33 0) False"
      "''temp/source_video.mp4''" demo_world
      "\<lparr>v_path = ''temp/source_video.mp4'', v_duration = 30,
        v_audio = Some (VideoAudio ''temp/source_video.mp4'' 30)\<rparr>"
      "''temp/dubbed_audio.mp3''" 33 30 None "''output/out.mp4''" ORIGINAL_AUDIO_VOLUME]
    by (simp add: load_video_def load_audio_def demo_ext_def demo_world_def demo_files_def
        MAX_SPEED_FACTOR_def val_whole_numbers)
qed




section \<open>Mixing a video that has no audio track\<close>



section \<open>Chunking and translation of long texts\<close>

lemma split_scan_no_space:
  "\<forall>c\<in>set cs. \<not> isspace c \<Longrightarrow> split_scan a p cs = [p @ cs]"
  by (induction cs arbitrary: a p) auto

lemma dropWhile_none: "\<forall>c\<in>set s. \<not> P c \<Longrightarrow> dropWhile P s = s"
  by (cases s) auto

lemma strip_no_space: "\<forall>c\<in>set s. \<not> isspace c \<Longrightarrow> strip s = s"
  by (simp add: strip_def dropWhile_none)

lemma join_space_snoc: "g \<noteq> [] \<Longrightarrow> join_space (g @ [s]) = join_space g @ [32] @ s"
  by (induction g rule: join_space.induct) auto

lemma join_space_empty: "join_space g = [] \<longleftrightarrow> g = [] \<or> g = [[]]"
  by (induction g rule: join_space.induct) auto

lemma length_strip: "length (strip s) \<le> length s"
proof -
  have "length (strip s) \<le> length (dropWhile isspace s)"
    unfolding strip_def by (metis length_dropWhile_le length_rev)
  also have "\<dots> \<le> length s" by (rule length_dropWhile_le)
  finally show ?thesis .
qed

lemma strip_space_Cons: "strip (32 # s) = strip s"
  by (simp add: strip_def isspace_def)

lemma chunk_loop_groups:
  "g \<noteq> [] \<Longrightarrow>
   \<exists>h gs. concat (h # gs) = g @ ss \<and> h \<noteq> [] \<and>
        (h = g \<or> length (join_space h) \<le> max_chunk_size) \<and>
        (\<forall>k\<in>set gs. k \<noteq> [] \<and> (2 \<le> length k \<longrightarrow> length (join_space k) \<le> max_chunk_size)) \<and>
        finish (chunk_loop ss chunks (join_space g)) =
          chunks @ map (\<lambda>k. strip (join_space k)) (filter (\<lambda>k. join_space k \<noteq> []) (h # gs))"
proof (induction ss arbitrary: g chunks)
  case Nil
  then show ?case
    by (intro exI [of _ g] exI [of _ "[]"]) (simp add: finish_def)
next
  case (Cons s ss)
  show ?case
  proof (cases "length (join_space g) + length s < max_chunk_size")
    case True
    from Cons.prems have ne: "g @ [s] \<noteq> []" by simp
    from Cons.IH [OF ne, of chunks] obtain h gs where
      gs: "concat (h # gs) = (g @ [s]) @ ss" "h \<noteq> []"
        "h = g @ [s] \<or> length (join_space h) \<le> max_chunk_size"
        "\<forall>k\<in>set gs. k \<noteq> [] \<and> (2 \<le> length k \<longrightarrow> length (join_space k) \<le> max_chunk_size)"
        "finish (chunk_loop ss chunks (join_space (g @ [s]))) =
          chunks @ map (\<lambda>k. strip (join_space k)) (filter (\<lambda>k. join_space k \<noteq> []) (h # gs))"
      by blast
    have j: "join_space (g @ [s]) = join_space g @ [32] @ s"
      using Cons.prems by (rule join_space_snoc)
    have b: "length (join_space h) \<le> max_chunk_size"
      using gs(3) True j by auto
    have step: "chunk_loop (s # ss) chunks (join_space g) =
        chunk_loop ss chunks (join_space (g @ [s]))"
      using True j by simp
    show ?thesis
      using gs(1,2,4,5) b step
      by (intro exI [of _ h] exI [of _ gs]) simp
  next
    case False
    let ?chunks = "if join_space g \<noteq> [] then chunks @ [strip (join_space g)] else chunks"
    have ne: "[s] \<noteq> []" by simp
    from Cons.IH [OF ne, of ?chunks] obtain h gs where
      gs: "concat (h # gs) = [s] @ ss" "h \<noteq> []"
        "h = [s] \<or> length (join_space h) \<le> max_chunk_size"
        "\<forall>k\<in>set gs. k \<noteq> [] \<and> (2 \<le> length k \<longrightarrow> length (join_space k) \<le> max_chunk_size)"
        "finish (chunk_loop ss ?chunks (join_space [s])) =
          ?chunks @ map (\<lambda>k. strip (join_space k)) (filter (\<lambda>k. join_space k \<noteq> []) (h # gs))"
      by blast
    have step: "chunk_loop (s # ss) chunks (join_space g) = chunk_loop ss ?chunks (join_space [s])"
      using False by simp
    have hk: "h \<noteq> [] \<and> (2 \<le> length h \<longrightarrow> length (join_space h) \<le> max_chunk_size)"
      using gs(2,3) by auto
    show ?thesis
      using gs(1,4,5) hk step Cons.prems
      by (intro exI [of _ g] exI [of _ "h # gs"]) (simp del: chunk_loop.simps)
  qed
qed

lemma split_scan_hd: "p \<noteq> [] \<Longrightarrow> \<exists>q rest. split_scan a p cs = q # rest \<and> q \<noteq> []"
  by (induction cs arbitrary: a p) auto

lemma re_split_hd:
  assumes "text \<noteq> []"
  shows "\<exists>q rest. re_split text = q # rest \<and> q \<noteq> []"
proof -
  from assms obtain c cs where t: "text = c # cs" by (cases "text") auto
  have "\<not> (False \<and> isspace c)" by simp
  then have "re_split text = split_scan (is_terminator c) [c] cs"
    unfolding re_split_def t by simp
  moreover have "\<exists>q rest. split_scan (is_terminator c) [c] cs = q # rest \<and> q \<noteq> []"
    by (rule split_scan_hd) simp
  ultimately show ?thesis by simp
qed

lemma finish_chunk_loop_nonempty:
  "chunks \<noteq> [] \<or> cur \<noteq> [] \<Longrightarrow> finish (chunk_loop ss chunks cur) \<noteq> []"
  by (induction ss arbitrary: chunks cur) (auto simp: finish_def)

lemma make_chunks_nonempty: "text \<noteq> [] \<Longrightarrow> make_chunks text \<noteq> []"
proof -
  assume "text \<noteq> []"
  then obtain q rest where r: "re_split text = q # rest" "q \<noteq> []"
    using re_split_hd by blast
  show ?thesis
    using r by (simp add: make_chunks_def finish_chunk_loop_nonempty del: chunk_loop.simps
        add: chunk_loop.simps(2) [of q rest "[]" "[]"])
qed

lemma finish_chunk_loop_prefix:
  "\<exists>more. finish (chunk_loop ss chunks cur) = chunks @ more"
proof (induction ss arbitrary: chunks cur)
  case Nil
  show ?case by (simp add: finish_def)
next
  case (Cons a ss)
  show ?case
  proof (cases "length cur + length a < max_chunk_size")
    case True
    with Cons.IH [of chunks "cur @ [32] @ a"] show ?thesis by simp
  next
    case False
    let ?c = "if cur \<noteq> [] then chunks @ [strip cur] else chunks"
    from Cons.IH [of ?c a] obtain more where
      "finish (chunk_loop ss ?c a) = ?c @ more" by blast
    with False show ?thesis by (cases "cur = []") simp_all
  qed
qed

lemma long_current_is_chunk:
  assumes "max_chunk_size \<le> length cur" and "cur \<noteq> []"
  shows "strip cur \<in> set (finish (chunk_loop ss chunks cur))"
proof (cases ss)
  case Nil
  with assms show ?thesis by (simp add: finish_def)
next
  case (Cons s rest)
  obtain more where "finish (chunk_loop rest (chunks @ [strip cur]) s) = (chunks @ [strip cur]) @ more"
    using finish_chunk_loop_prefix by blast
  with assms Cons show ?thesis by simp
qed

lemma long_sentence_is_chunk:
  "s \<in> set ss \<Longrightarrow> max_chunk_size \<le> length s \<Longrightarrow> s \<noteq> [] \<Longrightarrow>
     strip s \<in> set (finish (chunk_loop ss chunks cur))"
proof (induction ss arbitrary: chunks cur)
  case Nil
  then show ?case by simp
next
  case (Cons a ss)
  show ?case
  proof (cases "s = a")
    case True
    with Cons.prems(2,3) show ?thesis
      by (simp add: long_current_is_chunk)
  next
    case False
    with Cons.prems have "s \<in> set ss" by simp
    from Cons.IH [OF this Cons.prems(2,3)] show ?thesis by simp
  qed
qed

lemma make_chunks_groups:
  assumes "text \<noteq> []"
  shows "\<exists>groups. concat groups = re_split text \<and>
           make_chunks text =
             map (\<lambda>k. strip (join_space k)) (filter (\<lambda>k. join_space k \<noteq> []) groups) \<and>
           (\<forall>k\<in>set groups. 2 \<le> length k \<longrightarrow> length (join_space k) \<le> max_chunk_size)"
proof -
  obtain q rest where r: "re_split text = q # rest" "q \<noteq> []"
    using assms re_split_hd by blast
  have "[[]] \<noteq> ([]::str list)" by simp
  from chunk_loop_groups [OF this, of "re_split text" "[]"] obtain h gs where
    g: "concat (h # gs) = [[]] @ re_split text" "h \<noteq> []"
      "h = [[]] \<or> length (join_space h) \<le> max_chunk_size"
      "\<forall>k\<in>set gs. k \<noteq> [] \<and> (2 \<le> length k \<longrightarrow> length (join_space k) \<le> max_chunk_size)"
      "finish (chunk_loop (re_split text) [] (join_space [[]])) =
         [] @ map (\<lambda>k. strip (join_space k)) (filter (\<lambda>k. join_space k \<noteq> []) (h # gs))"
    by blast
  from g(1,2) obtain h' where h: "h = [] # h'" "concat (h' # gs) = re_split text"
    by (cases h) auto
  have mc: "make_chunks text =
      map (\<lambda>k. strip (join_space k)) (filter (\<lambda>k. join_space k \<noteq> []) (h # gs))"
    using g(5) by (simp add: make_chunks_def)
  show ?thesis
  proof (cases h')
    case Nil
    with h mc show ?thesis
      using g(4) by (intro exI [of _ "h' # gs"]) simp
  next
    case (Cons a as)
    with h(2) r have aq: "a = q" by simp
    with r(2) Cons have j: "join_space h' \<noteq> []"
      by (auto simp: join_space_empty)
    have e: "join_space h = 32 # join_space h'"
      using h(1) Cons by simp
    have b: "length (join_space h') \<le> max_chunk_size"
      using g(3) h(1) Cons e by auto
    show ?thesis
      using h mc g(4) j e b
      by (intro exI [of _ "h' # gs"]) (simp add: strip_space_Cons)
  qed
qed

lemma not_space_97: "\<not> isspace 97"
  by (simp add: isspace_def)

lemma not_space_99: "\<not> isspace 99"
  by (simp add: isspace_def)

lemma re_split_demo_text: "re_split demo_text = [py ''a.'', py ''b.'', replicate 4501 99]"
proof -
  have d: "dropWhile isspace (replicate 4501 99) = replicate 4501 99"
    by (rule dropWhile_none) (simp add: not_space_99)
  have n: "split_scan False [] (replicate 4501 99) = [[] @ replicate 4501 99]"
    by (rule split_scan_no_space) (simp add: not_space_99)
  have "re_split demo_text = split_scan False [] (97 # 46 # 32 # 98 # 46 # 32 # replicate 4501 99)"
    by (simp add: re_split_def demo_text_def py_def)
  also have "\<dots> = [[97, 46], [98, 46], replicate 4501 99]"
    by (simp add: isspace_def is_terminator_def d n)
  finally show ?thesis by (simp add: py_def)
qed

lemma make_chunks_demo_text: "make_chunks demo_text = [py ''a. b.'', replicate 4501 99]"
proof -
  have t: "strip (replicate 4501 99) = replicate 4501 99"
    by (rule strip_no_space) (simp add: not_space_99)
  have n: "replicate 4501 (99::nat) \<noteq> []" by simp
  have s: "strip [32, 97, 46, 32, 98, 46] = [97, 46, 32, 98, 46]"
    by (simp add: strip_def isspace_def)
  show ?thesis
    using n
    by (simp add: make_chunks_def re_split_demo_text py_def finish_def max_chunk_size_def t s
       )
qed

lemma translate_chunks_caught:
  "\<forall>c\<in>set cs. \<forall>m. translator c \<noteq> Inl (BaseExceptionOnly m) \<Longrightarrow>
     translate_chunks translator cs =
       Inr (map (\<lambda>c. case translator c of Inl e \<Rightarrow> c | Inr t \<Rightarrow> t) cs)"
proof (induction cs)
  case Nil
  show ?case by simp
next
  case (Cons c cs)
  then have ih: "translate_chunks translator cs =
      Inr (map (\<lambda>c. case translator c of Inl e \<Rightarrow> c | Inr t \<Rightarrow> t) cs)"
    by simp
  from Cons.prems have "\<forall>m. translator c \<noteq> Inl (BaseExceptionOnly m)" by simp
  then show ?case
    by (cases "translator c") (auto simp: ih split: exn.splits)
qed

lemma finish_chunk_loop_grows:
  "cur \<noteq> [] \<Longrightarrow> [] \<notin> set ss \<Longrightarrow>
     length chunks + 1 \<le> length (finish (chunk_loop ss chunks cur))"
proof (induction ss arbitrary: chunks cur)
  case Nil
  then show ?case by (simp add: finish_def)
next
  case (Cons s ss)
  from Cons.prems have s: "s \<noteq> []" "[] \<notin> set ss" by auto
  show ?case
  proof (cases "length cur + length s < max_chunk_size")
    case True
    have "cur @ [32] @ s \<noteq> []" by simp
    from Cons.IH [OF this s(2), of chunks] True show ?thesis by simp
  next
    case False
    from Cons.IH [OF s, of "chunks @ [strip cur]"] False Cons.prems(1) show ?thesis by simp
  qed
qed

lemma finish_chunk_loop_two:
  "cur \<noteq> [] \<Longrightarrow> ss \<noteq> [] \<Longrightarrow> [] \<notin> set ss \<Longrightarrow>
   max_chunk_size \<le> length cur + length (join_space ss) \<Longrightarrow>
     length chunks + 2 \<le> length (finish (chunk_loop ss chunks cur))"
proof (induction ss arbitrary: chunks cur)
  case Nil
  then show ?case by simp
next
  case (Cons s ss)
  from Cons.prems have s: "s \<noteq> []" "[] \<notin> set ss" by auto
  show ?case
  proof (cases "length cur + length s < max_chunk_size")
    case True
    with Cons.prems(4) have ne: "ss \<noteq> []" by (cases ss) auto
    then obtain t ts where ss: "ss = t # ts" by (cases ss) auto
    have j: "length (join_space (s # ss)) = length s + 1 + length (join_space ss)"
      by (simp add: ss)
    have c: "cur @ [32] @ s \<noteq> []" by simp
    have m: "max_chunk_size \<le> length (cur @ [32] @ s) + length (join_space ss)"
      using Cons.prems(4) j by simp
    from Cons.IH [OF c ne s(2) m, of chunks] True show ?thesis by simp
  next
    case False
    from finish_chunk_loop_grows [OF s, of "chunks @ [strip cur]"] False Cons.prems(1)
    show ?thesis by simp
  qed
qed

lemma make_chunks_two:
  assumes "2 \<le> length (re_split text)" and "[] \<notin> set (re_split text)"
    and "max_chunk_size \<le> length (join_space (re_split text))"
  shows "2 \<le> length (make_chunks text)"
proof -
  from assms(1) obtain s t ts where r: "re_split text = s # t # ts"
    by (cases "re_split text"; cases "tl (re_split text)") auto
  from assms(2) r have ne: "s \<noteq> []" "[] \<notin> set (t # ts)" by auto
  have j: "length (join_space (s # t # ts)) = length s + 1 + length (join_space (t # ts))"
    by simp
  show ?thesis
  proof (cases "length s < max_chunk_size")
    case True
    have m: "max_chunk_size \<le> length ([] @ [32] @ s) + length (join_space (t # ts))"
      using assms(3) unfolding r j by simp
    have "length ([]::str list) + 2 \<le> length (finish (chunk_loop (t # ts) [] ([] @ [32] @ s)))"
      by (rule finish_chunk_loop_two [OF _ _ ne(2) m]) simp_all
    with True show ?thesis
      by (simp add: make_chunks_def r del: chunk_loop.simps
          add: chunk_loop.simps(2) [of s "t # ts" "[]" "[]"])
  next
    case False
    have m: "max_chunk_size \<le> length s + length (join_space (t # ts))"
      using False by simp
    have "length ([]::str list) + 2 \<le> length (finish (chunk_loop (t # ts) [] s))"
      by (rule finish_chunk_loop_two [OF ne(1) _ ne(2) m]) simp
    with False show ?thesis
      by (simp add: make_chunks_def r del: chunk_loop.simps
          add: chunk_loop.simps(2) [of s "t # ts" "[]" "[]"])
  qed
qed

lemma demo_translator_long:
  "demo_translator (replicate 4501 99) = Inr (py ''X'')"
  "demo_interrupted (replicate 4501 99) = Inr (py ''X'')"
proof -
  have "(4501::nat) = Suc 4500" by simp
  then have u: "replicate 4501 (99::nat) = 99 # replicate 4500 99"
    by (simp only: replicate.simps)
  show "demo_translator (replicate 4501 99) = Inr (py ''X'')"
    unfolding u by (simp add: demo_translator_def py_def)
  show "demo_interrupted (replicate 4501 99) = Inr (py ''X'')"
    unfolding u by (simp add: demo_interrupted_def py_def)
qed

lemma length_demo_text: "max_chunk_size < length demo_text"
  by (simp add: demo_text_def py_def max_chunk_size_def)

text \<open>
  Claim C8, as stated, fails in three places. A text longer than 4500 characters is not
  always split into two or more segments: a text of 4501 letters has no sentence boundary;
  it is one segment, and the translator is called once, on the whole of it. The
  translator is constructed before anything is split, outside every \<^verbatim>\<open>try\<close>: when
  the constructor raises (here for the language \<^verbatim>\<open>xx\<close>), the whole request raises.
  And a raise that is not an \<^verbatim>\<open>Exception\<close> (here a keyboard interrupt during the
  first segment) is not caught: it aborts the whole request.
\<close>

theorem two_segments_counterexample:
  "max_chunk_size < length (replicate 4501 (97::nat)) \<and>
   make_chunks (replicate 4501 97) = [replicate 4501 97] \<and>
   translate_text (demo_GoogleTranslator demo_marker) (replicate 4501 97) (py ''es'') = Inr [35] \<and>
   translate_text (demo_GoogleTranslator demo_marker) demo_text (py ''xx'') =
     Inl (Exception (py ''LanguageNotSupported'')) \<and>
   translate_text (demo_GoogleTranslator demo_interrupted) demo_text (py ''es'') =
     Inl (BaseExceptionOnly (py ''KeyboardInterrupt''))"
proof -
  have s: "re_split (replicate 4501 97) = [replicate 4501 97]"
    by (simp add: re_split_def split_scan_no_space not_space_97)
  have t: "strip (replicate 4501 97) = replicate 4501 97"
    by (simp add: strip_no_space not_space_97)
  have n: "replicate 4501 (97::nat) \<noteq> []" by simp
  have c: "make_chunks (replicate 4501 97) = [replicate 4501 97]"
    using n by (simp add: make_chunks_def finish_def s t max_chunk_size_def)
  have l: "max_chunk_size < length (replicate 4501 (97::nat))"
    by (simp add: max_chunk_size_def)
  have es: "py ''es'' \<noteq> py ''xx''" by (simp add: py_def)
  have one: "translate_text (demo_GoogleTranslator demo_marker) (replicate 4501 97) (py ''es'') =
      Inr [35]"
    using l es by (simp add: translate_text_def demo_GoogleTranslator_def c demo_marker_def)
  have two: "translate_text (demo_GoogleTranslator demo_marker) demo_text (py ''xx'') =
      Inl (Exception (py ''LanguageNotSupported''))"
    by (simp add: translate_text_def demo_GoogleTranslator_def)
  have i: "demo_interrupted (py ''a. b.'') = Inl (BaseExceptionOnly (py ''KeyboardInterrupt''))"
    by (simp add: demo_interrupted_def py_def)
  have three: "translate_text (demo_GoogleTranslator demo_interrupted) demo_text (py ''es'') =
      Inl (BaseExceptionOnly (py ''KeyboardInterrupt''))"
    using length_demo_text es
    by (simp add: translate_text_def demo_GoogleTranslator_def make_chunks_demo_text i)
  from l c one two three show ?thesis by simp
qed

text \<open>
  Claim C8, amended. For every text longer than 4500 characters, once the translator has
  been constructed for the target language, \<open>translate_text\<close> splits the text on
  sentence boundaries into one or more segments: the sentences of the text, taken in order,
  fall into consecutive groups, and the segments are the groups joined with single spaces
  and stripped. There are two or more segments whenever the text has at least two
  sentences, none of them empty, whose join with single spaces is at least 4500 characters
  long. Each segment is translated on its own; a segment whose translation raises an
  \<^verbatim>\<open>Exception\<close> is passed through untranslated, and the others are still
  translated; the results are joined with single spaces. As long as no segment raises
  anything else, the request is not aborted.
\<close>

theorem translate_text_long:
  assumes "max_chunk_size < length text"
    and "GoogleTranslator target_lang = Inr translator"
    and "\<forall>c\<in>set (make_chunks text). \<forall>m. translator c \<noteq> Inl (BaseExceptionOnly m)"
  shows "translate_text GoogleTranslator text target_lang =
           Inr (join_space (map (\<lambda>c. case translator c of Inl e \<Rightarrow> c | Inr t \<Rightarrow> t)
                  (make_chunks text))) \<and>
         1 \<le> length (make_chunks text) \<and>
         (\<exists>groups. concat groups = re_split text \<and>
            make_chunks text =
              map (\<lambda>k. strip (join_space k)) (filter (\<lambda>k. join_space k \<noteq> []) groups)) \<and>
         (2 \<le> length (re_split text) \<and> [] \<notin> set (re_split text) \<and>
          max_chunk_size \<le> length (join_space (re_split text)) \<longrightarrow>
            2 \<le> length (make_chunks text))"
proof -
  from assms(1) have ne: "text \<noteq> []" by auto
  have a: "translate_text GoogleTranslator text target_lang =
      Inr (join_space (map (\<lambda>c. case translator c of Inl e \<Rightarrow> c | Inr t \<Rightarrow> t)
        (make_chunks text)))"
    using assms(1,2) translate_chunks_caught [OF assms(3)]
    by (simp add: translate_text_def)
  have b: "1 \<le> length (make_chunks text)"
    using make_chunks_nonempty [OF ne] by (cases "make_chunks text") simp_all
  from make_chunks_groups [OF ne] have c: "\<exists>groups. concat groups = re_split text \<and>
      make_chunks text =
        map (\<lambda>k. strip (join_space k)) (filter (\<lambda>k. join_space k \<noteq> []) groups)"
    by blast
  from a b c make_chunks_two [of "text"] show ?thesis by blast
qed

theorem translate_text_long_witness:
  "max_chunk_size < length demo_text \<and>
   demo_GoogleTranslator demo_translator (py ''es'') = Inr demo_translator \<and>
   demo_translator (py ''a. b.'') = Inl (Exception (py ''timeout'')) \<and>
   demo_translator (replicate 4501 99) = Inr (py ''X'') \<and>
   re_split demo_text = [py ''a.'', py ''b.'', replicate 4501 99] \<and>
   make_chunks demo_text = [py ''a. b.'', replicate 4501 99] \<and>
   2 \<le> length (make_chunks demo_text) \<and>
   translate_text (demo_GoogleTranslator demo_translator) demo_text (py ''es'') =
     Inr (py ''a. b. X'')"
proof -
  have g: "demo_GoogleTranslator demo_translator (py ''es'') = Inr demo_translator"
    by (simp add: demo_GoogleTranslator_def py_def)
  have f: "demo_translator (py ''a. b.'') = Inl (Exception (py ''timeout''))"
    by (simp add: demo_translator_def py_def)
  have j: "join_space [py ''a. b.'', py ''X''] = py ''a. b. X''"
    by (simp add: py_def)
  have h: "\<forall>c\<in>set (make_chunks demo_text). \<forall>m. demo_translator c \<noteq> Inl (BaseExceptionOnly m)"
    unfolding make_chunks_demo_text by (simp add: f demo_translator_long)
  from translate_text_long [of demo_text "demo_GoogleTranslator demo_translator" "py ''es''"
      demo_translator, OF length_demo_text g h]
  have "translate_text (demo_GoogleTranslator demo_translator) demo_text (py ''es'') =
      Inr (py ''a. b. X'')"
    unfolding make_chunks_demo_text by (simp only: list.map demo_translator_long f sum.case j)
  with length_demo_text g f show ?thesis
    by (simp add: make_chunks_demo_text re_split_demo_text demo_translator_long)
qed

text \<open>
  Claim C10. In the chunking of a text longer than 4500 characters, the chunks are the
  stripped joins of consecutive groups of sentences; every chunk made of two or more
  sentences has at most 4500 characters, so that a chunk longer than that is a single
  stripped sentence; and every sentence longer than 4500 characters is
  a chunk by itself (stripped), sent whole to the translator, so that the chunk exceeds the
  threshold whenever the stripped sentence does. In the witness a chunk of 4501 characters
  is sent.
\<close>

theorem chunk_sizes:
  assumes "max_chunk_size < length text"
  shows "(\<exists>groups. concat groups = re_split text \<and>
            make_chunks text =
              map (\<lambda>k. strip (join_space k)) (filter (\<lambda>k. join_space k \<noteq> []) groups) \<and>
            (\<forall>k\<in>set groups. 2 \<le> length k \<longrightarrow>
               length (strip (join_space k)) \<le> max_chunk_size)) \<and>
         (\<forall>c\<in>set (make_chunks text). max_chunk_size < length c \<longrightarrow>
            (\<exists>s\<in>set (re_split text). c = strip s)) \<and>
         (\<forall>s\<in>set (re_split text). max_chunk_size < length s \<longrightarrow>
            strip s \<in> set (make_chunks text))"
proof -
  from assms have ne: "text \<noteq> []" by auto
  from make_chunks_groups [OF ne] obtain groups where
    g: "concat groups = re_split text"
      "make_chunks text =
         map (\<lambda>k. strip (join_space k)) (filter (\<lambda>k. join_space k \<noteq> []) groups)"
      "\<forall>k\<in>set groups. 2 \<le> length k \<longrightarrow> length (join_space k) \<le> max_chunk_size"
    by blast
  have "\<forall>k\<in>set groups. 2 \<le> length k \<longrightarrow> length (strip (join_space k)) \<le> max_chunk_size"
    using g(3) length_strip le_trans by blast
  with g(1,2) have a: "\<exists>groups. concat groups = re_split text \<and>
      make_chunks text =
        map (\<lambda>k. strip (join_space k)) (filter (\<lambda>k. join_space k \<noteq> []) groups) \<and>
      (\<forall>k\<in>set groups. 2 \<le> length k \<longrightarrow> length (strip (join_space k)) \<le> max_chunk_size)"
    by blast
  have b: "\<forall>s\<in>set (re_split text). max_chunk_size < length s \<longrightarrow>
      strip s \<in> set (make_chunks text)"
  proof (intro ballI impI)
    fix s assume s: "s \<in> set (re_split text)" "max_chunk_size < length s"
    then have "s \<noteq> []" by auto
    with s show "strip s \<in> set (make_chunks text)"
      by (simp add: make_chunks_def long_sentence_is_chunk)
  qed
  have c: "\<forall>c\<in>set (make_chunks text). max_chunk_size < length c \<longrightarrow>
      (\<exists>s\<in>set (re_split text). c = strip s)"
  proof (intro ballI impI)
    fix c assume c: "c \<in> set (make_chunks text)" "max_chunk_size < length c"
    from c(1) g(2) obtain k where
      k: "k \<in> set groups" "join_space k \<noteq> []" "c = strip (join_space k)"
      by auto
    have "length c \<le> length (join_space k)"
      unfolding k(3) by (rule length_strip)
    with c(2) g(3) k(1) have "\<not> 2 \<le> length k" by fastforce
    moreover from k(2) have "k \<noteq> []" by auto
    ultimately obtain s where s: "k = [s]"
      by (cases k) (auto simp: not_le less_Suc_eq)
    with k(1) g(1) have "s \<in> set (re_split text)"
      by (metis list.set_intros(1) set_concat UN_I)
    with s k(3) show "\<exists>s\<in>set (re_split text). c = strip s" by auto
  qed
  from a b c show ?thesis by blast
qed

theorem chunk_sizes_witness:
  "max_chunk_size < length demo_text \<and>
   re_split demo_text = [py ''a.'', py ''b.'', replicate 4501 99] \<and>
   make_chunks demo_text = [py ''a. b.'', replicate 4501 99] \<and>
   length (py ''a. b.'') \<le> max_chunk_size \<and>
   strip (replicate 4501 99) \<in> set (make_chunks demo_text) \<and>
   max_chunk_size < length (strip (replicate 4501 99))"
proof -
  have l: "max_chunk_size < length demo_text"
    by (simp add: demo_text_def py_def max_chunk_size_def)
  have t: "strip (replicate 4501 99) = replicate 4501 99"
    by (rule strip_no_space) (simp add: not_space_99)
  have m: "max_chunk_size < length (replicate 4501 (99::nat))"
    by (simp add: max_chunk_size_def)
  have i: "replicate 4501 99 \<in> set (re_split demo_text)"
    unfolding re_split_demo_text by (simp only: list.set insert_iff simp_thms)
  from chunk_sizes [OF l] i m have "strip (replicate 4501 99) \<in> set (make_chunks demo_text)"
    by blast
  moreover have "length (py ''a. b.'') \<le> max_chunk_size"
    by (simp add: py_def max_chunk_size_def)
  moreover have "max_chunk_size < length (strip (replicate 4501 99))"
    unfolding t by (simp add: max_chunk_size_def)
  ultimately show ?thesis
    using l by (simp only: re_split_demo_text make_chunks_demo_text simp_thms)
qed

section \<open>The batch runner\<close>

lemma batch_loop_outcomes:
  "\<forall>p\<in>set (zip urls (states_before pv lang urls s)). \<not> interrupted pv lang (fst p) (snd p) \<Longrightarrow>
   batch_loop pv lang urls acc s =
     (Inr (acc @ map2 (job_outcome pv lang) urls (states_before pv lang urls s)),
      fold (\<lambda>url s. snd (pv url lang s)) urls s)"
proof (induction urls arbitrary: acc s)
  case Nil
  show ?case by simp
next
  case (Cons u urls)
  obtain r s1 where p: "pv u lang s = (r, s1)" by (cases "pv u lang s")
  from Cons.prems have ni: "\<not> interrupted pv lang u s"
    and rest: "\<forall>p\<in>set (zip urls (states_before pv lang urls s1)). \<not> interrupted pv lang (fst p) (snd p)"
    by (simp_all add: p)
  show ?case
  proof (cases r)
    case (Inr out)
    with p Cons.IH [OF rest, of "acc @ [Success u out]"] show ?thesis
      by (simp add: job_outcome_def)
  next
    case (Inl e)
    with ni p obtain m where e: "e = Exception m"
      by (cases e) (auto simp: interrupted_def)
    with Inl p Cons.IH [OF rest, of "acc @ [Failed u m]"] show ?thesis
      by (simp add: job_outcome_def)
  qed
qed

lemma length_states_before: "length (states_before pv lang urls s) = length urls"
  by (induction urls arbitrary: s) auto

lemma result_url_job_outcome: "result_url (job_outcome pv lang url s) = url"
  by (simp add: job_outcome_def split: sum.splits)

lemma map_result_url_outcomes:
  "length ss = length urls \<Longrightarrow> map result_url (map2 (job_outcome pv lang) urls ss) = urls"
  by (induction urls ss rule: list_induct2') (auto simp: result_url_job_outcome)

lemma success_plus_failed:
  "length (filter is_success rs) + length (filter is_failed rs) = length rs"
proof (induction rs)
  case Nil
  show ?case by simp
next
  case (Cons r rs)
  then show ?case by (cases r) simp_all
qed

lemma read_urls_demo: "read_urls demo_lines = [py ''u1'', py ''bad'', py ''u3'']"
  by (simp add: read_urls_def demo_lines_def py_def strip_def isspace_def)

lemma read_urls_demo_stop: "read_urls demo_lines_stop = [py ''u1'', py ''stop'', py ''u3'']"
  by (simp add: read_urls_def demo_lines_stop_def py_def strip_def isspace_def)

text \<open>
  Claim C9, as stated, fails: not every exception raised by a job is caught. The runner
  catches the instances of \<^verbatim>\<open>Exception\<close> only; when the second of three jobs is
  interrupted from the keyboard, the interrupt leaves \<open>batch_process\<close>, the third job is
  never run and no result list is returned.
\<close>

theorem batch_interrupt_counterexample:
  "batch_process demo_process_video [''urls.txt'' \<mapsto> demo_lines_stop] ''urls.txt'' (py ''es'') [] =
     (Inl (Uncaught (BaseExceptionOnly (py ''KeyboardInterrupt''))), [py ''u1'', py ''stop''])"
  by (simp add: batch_process_def read_urls_demo_stop demo_process_video_def py_def)

text \<open>
  Claim C9, amended. For every batch file that can be opened, \<open>batch_process\<close> runs the
  jobs (the URLs of the file) one at a time in input order: each job runs in the state the
  job before it left. An exception of class \<^verbatim>\<open>Exception\<close> raised by a job is caught
  and recorded as the failure of that job, with its message, and the runner goes on to the
  next job. When no job raises anything else, the result list has exactly one entry for
  each job, in the order of the jobs, each the success or the failure of its job, and the
  counts of the summary are the numbers of successes and of failures in that list, which add
  up to the number of jobs.
\<close>

theorem batch_process_outcomes:
  assumes "batch_files urls_file = Some file_lines"
    and "urls = read_urls file_lines"
    and "\<forall>p\<in>set (zip urls (states_before pv lang urls s)). \<not> interrupted pv lang (fst p) (snd p)"
  shows "\<exists>report. batch_process pv batch_files urls_file lang s =
           (Inr report, fold (\<lambda>url s. snd (pv url lang s)) urls s) \<and>
         report_results report =
           map2 (job_outcome pv lang) urls (states_before pv lang urls s) \<and>
         length (report_results report) = length urls \<and>
         map result_url (report_results report) = urls \<and>
         report_success report = length (filter is_success (report_results report)) \<and>
         report_failed report = length (filter is_failed (report_results report)) \<and>
         report_success report + report_failed report = length urls"
proof -
  define rs where "rs = map2 (job_outcome pv lang) urls (states_before pv lang urls s)"
  have loop: "batch_loop pv lang urls [] s = (Inr rs, fold (\<lambda>url s. snd (pv url lang s)) urls s)"
    using batch_loop_outcomes [OF assms(3), of "[]"] by (simp add: rs_def)
  have len: "length rs = length urls"
    unfolding rs_def by (simp add: length_states_before)
  have u: "map result_url rs = urls"
    unfolding rs_def by (rule map_result_url_outcomes) (rule length_states_before)
  have c: "length (filter is_success rs) + length (filter is_failed rs) = length urls"
    using success_plus_failed [of rs] len by simp
  have bp: "batch_process pv batch_files urls_file lang s =
      (Inr \<lparr>report_results = rs, report_success = length (filter is_success rs),
             report_failed = length (filter is_failed rs)\<rparr>,
       fold (\<lambda>url s. snd (pv url lang s)) urls s)"
    using assms(1,2) loop by (simp add: batch_process_def del: batch_loop.simps)
  from len u c bp show ?thesis by (simp add: rs_def)
qed

theorem batch_process_outcomes_witness:
  "read_urls demo_lines = [py ''u1'', py ''bad'', py ''u3''] \<and>
   batch_process demo_process_video [''urls.txt'' \<mapsto> demo_lines] ''urls.txt'' (py ''es'') [] =
     (Inr \<lparr>report_results = [Success (py ''u1'') (py ''out_u1''), Failed (py ''bad'') (py ''error''),
               Success (py ''u3'') (py ''out_u3'')],
            report_success = 2, report_failed = 1\<rparr>,
      [py ''u1'', py ''bad'', py ''u3''])"
  using batch_process_outcomes [of "[''urls.txt'' \<mapsto> demo_lines]" "''urls.txt''" demo_lines
      "[py ''u1'', py ''bad'', py ''u3'']" demo_process_video "py ''es''" "[]"]
  by (auto simp: read_urls_demo job_outcome_def interrupted_def demo_process_video_def py_def)

end
